theory Spec2Isabelle
  imports Main "HOL-Library.Word"
begin

section \<open>Integer parsing\<close>

text \<open>
  Go's \<open>[]byte\<close> is a list of 8-bit words, \<open>uint64\<close> and \<open>int64\<close> are 64-bit words
  (\<open>sint\<close> reads the two's complement value of an \<open>int64\<close>); all arithmetic wraps.
  A Go \<open>string\<close> is a sequence of bytes, here a \<open>string\<close> of 8-bit characters.
\<close>

type_synonym byte = "8 word"
type_synonym uint64 = "64 word"
type_synonym int64 = "64 word"

text \<open>The conversion \<open>[]byte(s)\<close>.\<close>

definition bytes :: "string \<Rightarrow> byte list" where
  "bytes s = map (\<lambda>c. of_nat (of_char c)) s"

text \<open>
  The loop of \<open>ParseInt\<close>, \<open>for i := 1; i < len(bytes); i++\<close>, over the bytes that remain:
  the subtraction \<open>bytes[i]-'0'\<close> is on bytes, the result is widened to 64 bits.
\<close>

fun ParseInt_loop :: "byte list \<Rightarrow> uint64 \<Rightarrow> uint64" where
  "ParseInt_loop [] u = u"
| "ParseInt_loop (b # bs) u = ParseInt_loop bs (u * 10 + ucast (b - 48))"

definition ParseInt :: "byte list \<Rightarrow> int64" where
  "ParseInt bs =
     (case bs of
        [] \<Rightarrow> 0
      | b0 # rest \<Rightarrow>
          let u = (ucast b0 :: uint64);
              neg = (u = 45);
              u = (if neg then 0 else u - 48);
              u = ParseInt_loop rest u;
              val = u
          in if neg then - val else val)"

text \<open>
  \<open>strconv.FormatInt(i, 10)\<close> of the Go standard library, used by the test of \<open>ParseInt\<close>:
  the digits of the magnitude, least significant first into the front of the buffer,
  after a minus sign when \<open>i\<close> is negative. The magnitude of a negative \<open>i\<close> is
  \<open>uint64(-i)\<close>, which is \<open>2 ^ 63\<close> for the minimum.
\<close>

function formatBits :: "nat \<Rightarrow> string \<Rightarrow> string" where
  "formatBits u buf =
     (if u < 10 then char_of (48 + u) # buf
      else formatBits (u div 10) (char_of (48 + u mod 10) # buf))"
  by pat_completeness auto
termination
  by (relation "measure (\<lambda>(u, buf). u)") auto

declare formatBits.simps [simp del]

definition FormatInt :: "int64 \<Rightarrow> string" where
  "FormatInt i =
     (if sint i < 0 then CHR ''-'' # formatBits (unat (- i)) []
      else formatBits (unat i) [])"

section \<open>Address normalisation\<close>

definition isUnixAddr :: "string \<Rightarrow> bool" where
  "isUnixAddr s = (length s \<noteq> 0 \<and> s ! 0 = CHR ''/'')"

text \<open>
  The functions of the Go standard library that \<open>normalizeAddr\<close> calls, on Unix.
  \<open>IndexByteString\<close> and \<open>LastIndexByteString\<close> give the index of the first and of the last
  occurrence of a byte in a string, or \<open>-1\<close>.
\<close>

definition IndexByteString :: "string \<Rightarrow> char \<Rightarrow> int" where
  "IndexByteString s c =
     (if c \<in> set s then int (length (takeWhile (\<lambda>x. x \<noteq> c) s)) else - 1)"

definition LastIndexByteString :: "string \<Rightarrow> char \<Rightarrow> int" where
  "LastIndexByteString s c =
     (if c \<in> set s then int (length s) - 1 - int (length (takeWhile (\<lambda>x. x \<noteq> c) (rev s)))
      else - 1)"

text \<open>The slice \<open>s[i:j]\<close>, for \<open>0 \<le> i \<le> j \<le> len(s)\<close>.\<close>

definition slice :: "string \<Rightarrow> int \<Rightarrow> int \<Rightarrow> string" where
  "slice s i j = take (nat j - nat i) (drop (nat i) s)"

datatype AddrError =
    missingPort | tooManyColons | missingBracket | unexpectedOpen | unexpectedClose

text \<open>
  \<open>net.SplitHostPort\<close> returns \<open>host, port, err\<close>; with an error, host and port are empty.
  The tail of the function, after the host is known, checks for stray brackets from
  \<open>j\<close> and from \<open>k\<close> on.
\<close>

definition addrErr :: "AddrError \<Rightarrow> string \<times> string \<times> AddrError option" where
  "addrErr why = ('''', '''', Some why)"

definition SplitHostPort_tail ::
  "string \<Rightarrow> string \<Rightarrow> int \<Rightarrow> int \<Rightarrow> int \<Rightarrow> string \<times> string \<times> AddrError option" where
  "SplitHostPort_tail hostport host i j k =
     (if IndexByteString (drop (nat j) hostport) (CHR ''['') \<ge> 0 then addrErr unexpectedOpen
      else if IndexByteString (drop (nat k) hostport) (CHR '']'') \<ge> 0 then addrErr unexpectedClose
      else (host, drop (nat (i + 1)) hostport, None))"

definition SplitHostPort :: "string \<Rightarrow> string \<times> string \<times> AddrError option" where
  "SplitHostPort hostport =
     (let i = LastIndexByteString hostport (CHR '':'') in
      if i < 0 then addrErr missingPort
      else if hostport ! 0 = CHR ''['' then
        (let end = IndexByteString hostport (CHR '']'') in
         if end < 0 then addrErr missingBracket
         else if end + 1 = int (length hostport) then addrErr missingPort
         else if end + 1 = i then
           SplitHostPort_tail hostport (slice hostport 1 end) i 1 (end + 1)
         else if hostport ! nat (end + 1) = CHR '':'' then addrErr tooManyColons
         else addrErr missingPort)
      else
        (let host = slice hostport 0 i in
         if IndexByteString host (CHR '':'') \<ge> 0 then addrErr tooManyColons
         else SplitHostPort_tail hostport host i 0 0))"

definition JoinHostPort :: "string \<Rightarrow> string \<Rightarrow> string" where
  "JoinHostPort host port =
     (if IndexByteString host (CHR '':'') \<ge> 0 then ''['' @ host @ '']:'' @ port
      else host @ '':'' @ port)"

text \<open>
  \<open>filepath.Clean\<close>. The output buffer is the string written so far (\<open>out.w\<close> is its
  length); \<open>dotdot\<close> is the index where backtracking must stop. A \<open>..\<close> element moves
  \<open>out.w\<close> back to the last separator: \<open>Clean_backtrack\<close> is that inner loop, reading
  the buffer as it was.
\<close>

function Clean_backtrack :: "string \<Rightarrow> nat \<Rightarrow> nat \<Rightarrow> nat" where
  "Clean_backtrack out dotdot w =
     (if w > dotdot \<and> out ! w \<noteq> CHR ''/'' then Clean_backtrack out dotdot (w - 1) else w)"
  by pat_completeness auto
termination
  by (relation "measure (\<lambda>(out, dotdot, w). w)") auto

declare Clean_backtrack.simps [simp del]

function Clean_loop :: "bool \<Rightarrow> string \<Rightarrow> string \<Rightarrow> nat \<Rightarrow> string" where
  "Clean_loop rooted [] out dotdot = out"
| "Clean_loop rooted (c # cs) out dotdot =
     (if c = CHR ''/'' then Clean_loop rooted cs out dotdot
      else if c = CHR ''.'' \<and> (case cs of [] \<Rightarrow> True | d # _ \<Rightarrow> d = CHR ''/'') then
        Clean_loop rooted cs out dotdot
      else if c = CHR ''.'' \<and>
              (case cs of [] \<Rightarrow> False
               | d # ds \<Rightarrow> d = CHR ''.'' \<and> (case ds of [] \<Rightarrow> True | e # _ \<Rightarrow> e = CHR ''/'')) then
        (if length out > dotdot then
           Clean_loop rooted (tl cs) (take (Clean_backtrack out dotdot (length out - 1)) out) dotdot
         else if \<not> rooted then
           (let out = (if length out > 0 then out @ ''/'' else out);
                out = out @ ''..''
            in Clean_loop rooted (tl cs) out (length out))
         else Clean_loop rooted (tl cs) out dotdot)
      else
        (let out = (if rooted \<and> length out \<noteq> 1 \<or> \<not> rooted \<and> length out \<noteq> 0
                    then out @ ''/'' else out)
         in Clean_loop rooted (dropWhile (\<lambda>x. x \<noteq> CHR ''/'') (c # cs))
              (out @ takeWhile (\<lambda>x. x \<noteq> CHR ''/'') (c # cs)) dotdot))"
  by pat_completeness auto
termination
proof (relation "measure (\<lambda>(rooted, path, out, dotdot). length path)")
  show "wf (measure (\<lambda>(rooted, path, out, dotdot). length path))"
    by simp
next
  fix rooted :: bool and c :: char and cs out :: string and dotdot :: nat and x :: string
  assume "c \<noteq> CHR ''/''"
  have "length (dropWhile (\<lambda>x. x \<noteq> CHR ''/'') cs) \<le> length cs"
    by (rule length_dropWhile_le)
  then show "((rooted, dropWhile (\<lambda>x. x \<noteq> CHR ''/'') (c # cs),
                x @ takeWhile (\<lambda>x. x \<noteq> CHR ''/'') (c # cs), dotdot),
               rooted, c # cs, out, dotdot)
             \<in> measure (\<lambda>(rooted, path, out, dotdot). length path)"
    using \<open>c \<noteq> CHR ''/''\<close> by simp
qed (auto split: list.splits)

declare Clean_loop.simps [simp del]

definition Clean :: "string \<Rightarrow> string" where
  "Clean path =
     (if path = '''' then ''.''
      else
        let rooted = (path ! 0 = CHR ''/'');
            out = Clean_loop rooted (if rooted then drop 1 path else path)
                    (if rooted then ''/'' else '''') (if rooted then 1 else 0)
        in if length out = 0 then ''.'' else out)"

definition normalizeAddr :: "string \<Rightarrow> string" where
  "normalizeAddr s =
     (if isUnixAddr s then Clean s
      else
        case SplitHostPort s of (host, port, err) \<Rightarrow>
          let host = (if err \<noteq> None then s else host);
              host = (if host = '''' then ''localhost'' else host);
              port = (if port = '''' then ''6379'' else port)
          in JoinHostPort host port)"

section \<open>The client\<close>

text \<open>Fixed settings: the limit of pending requests per network protocol.\<close>

definition conservativeMSS :: nat where
  "conservativeMSS = 1208"

definition queueSizeTCP :: nat where
  "queueSizeTCP = 128"

definition queueSizeUnix :: nat where
  "queueSizeUnix = 512"

text \<open>
  A \<open>net.Conn\<close> is a socket, named by a number; a \<open>*bufio.Reader\<close> is the reader made
  over a socket. The errors are the package's error values, the server's error replies,
  the wrapped dial error of \<open>connect\<close> and the errors of the network.
\<close>

type_synonym netConn = nat

datatype reader = NewReaderSize netConn nat

datatype error =
    ErrClosed
  | errConnLost
  | errProtocol
  | errNull
  | ServerError string
  | Errorf_offline error
  | NetError string

record redisConn =
  Conn :: "netConn option"
  offline :: "error option"
  idle :: "reader option"

text \<open>
  The channels that travel through \<open>readQueue\<close>: the \<open>receive\<close> channel of a request,
  where its \<open>submit\<close> call waits for the reader, and the \<open>readHandover\<close> channel that
  \<open>haltReceive\<close> makes. The type \<open>request\<close> is declared outside the two source files;
  \<open>submit\<close> uses its bytes and its \<open>receive\<close> channel.
\<close>

datatype chan = ReqReceive nat | ReadHandover nat

record request =
  buf :: "byte list"
  receive :: chan

text \<open>
  The goroutines under way between two operations. Those that the client starts with
  \<open>go\<close>: \<open>connect\<close>, with the loop variable \<open>firstAttempt\<close> of its next iteration, the
  function literal of \<open>submit\<close> after a failed write, and the one of \<open>onReceiveError\<close>; both
  literals hold the connection token. And those that wait in the inner \<open>select\<close> of
  \<open>haltReceive\<close>, with the token they took and their \<open>readHandover\<close> channel: a call of
  \<open>Close\<close>, or the function literal of \<open>submit\<close>.
\<close>

datatype goroutine =
    Go_connect bool
  | Go_submit_failed redisConn
  | Go_receive_failed redisConn
  | Go_Close_handover redisConn chan
  | Go_submit_failed_handover redisConn chan

text \<open>
  The client. A channel field holds what the channel holds: \<open>connSem\<close>, of capacity 1,
  the token or nothing; \<open>readQueue\<close> the queued channels, oldest first, with its capacity
  \<open>readQueue_cap\<close>; \<open>readInterrupt\<close> has no buffer and so no content. Three more fields
  record what the client has done: the goroutines under way, the values sent on the
  channels of \<open>readQueue\<close>, oldest first (\<open>None\<close> is the nil reader), and the sockets
  closed.
\<close>

record Client =
  Addr :: string
  connectTimeout :: int64
  commandTimeout :: int64
  connSem :: "redisConn option"
  readQueue :: "chan list"
  readQueue_cap :: nat
  goroutines :: "goroutine list"
  sent :: "(chan \<times> reader option) list"
  closed :: "netConn list"

definition NewClient :: "string \<Rightarrow> int64 \<Rightarrow> int64 \<Rightarrow> Client" where
  "NewClient addr commandTimeout' connectTimeout' =
     (let addr = normalizeAddr addr;
          connectTimeout' = (if connectTimeout' = 0 then 1000000000 else connectTimeout');
          queueSize = (if isUnixAddr addr then queueSizeUnix else queueSizeTCP)
      in \<lparr>Addr = addr,
          connectTimeout = connectTimeout',
          commandTimeout = commandTimeout',
          connSem = None,
          readQueue = [],
          readQueue_cap = queueSize,
          goroutines = [Go_connect True],
          sent = [],
          closed = []\<rparr>)"

text \<open>
  An operation of the client is a function of the client's state and of what its
  environment decides while it runs: which case of a \<open>select\<close> is taken, the result of a
  dial, a write or a close of the socket. It returns, with the new state, or does not
  return: it waits on a channel that nothing in the state it was given will serve, and
  \<open>Blocked\<close> holds the state it has reached by then; or it dereferences a nil \<open>net.Conn\<close>.
\<close>

datatype fault = Blocked Client | NilDereference

definition then_run :: "fault + 'a \<Rightarrow> ('a \<Rightarrow> fault + 'b) \<Rightarrow> fault + 'b" where
  "then_run m f = (case m of Inl e \<Rightarrow> Inl e | Inr x \<Rightarrow> f x)"

definition finished :: "goroutine \<Rightarrow> goroutine list \<Rightarrow> Client \<Rightarrow> Client" where
  "finished g next c = c\<lparr>goroutines := remove1 g (goroutines c) @ next\<rparr>"

text \<open>
  The value that a receive from a channel of the queue yields: the first one sent on it,
  if any.
\<close>

definition received_on :: "Client \<Rightarrow> chan \<Rightarrow> reader option option" where
  "received_on c ch = map_of (sent c) ch"

text \<open>
  \<open>cancelQueue\<close>: \<open>n\<close> counts down from \<open>len(c.readQueue)\<close>. Each round receives the oldest
  channel and sends nil on it. The owner of a request's channel waits there (\<open>submit\<close>,
  line 327); nobody receives on a \<open>readHandover\<close> channel once \<open>haltReceive\<close> has returned,
  and \<open>cancelQueue\<close> only runs after it: the round has taken the channel from the queue
  and waits in the send.
\<close>

fun cancelQueue_loop :: "nat \<Rightarrow> Client \<Rightarrow> fault + Client" where
  "cancelQueue_loop 0 c = Inr c"
| "cancelQueue_loop (Suc n) c =
     (case readQueue c of
        [] \<Rightarrow> Inl (Blocked c)
      | ReadHandover h # rest \<Rightarrow> Inl (Blocked (c\<lparr>readQueue := rest\<rparr>))
      | ReqReceive k # rest \<Rightarrow>
          cancelQueue_loop n (c\<lparr>readQueue := rest, sent := sent c @ [(ReqReceive k, None)]\<rparr>))"

definition cancelQueue :: "Client \<Rightarrow> fault + Client" where
  "cancelQueue c = cancelQueue_loop (length (readQueue c)) c"

text \<open>
  \<open>haltReceive\<close>, in two steps. The first one runs up to the inner \<open>select\<close>. Without a
  read routine it returns at once. With one, the outer \<open>select\<close> has the read routine
  accept the interrupt, which halts it; or sends \<open>readHandover\<close> to the queue, behind the
  channels that wait there, and goes on to the inner \<open>select\<close>; or no case is ever ready.
\<close>

datatype halt_select = Halt_readInterrupt | Halt_readQueue | Halt_never

datatype halting = Halted Client | Handover Client

definition haltReceive :: "Client \<Rightarrow> redisConn \<Rightarrow> chan \<Rightarrow> halt_select \<Rightarrow> fault + halting" where
  "haltReceive c writeLock readHandover hs =
     (if offline writeLock \<noteq> None \<or> idle writeLock \<noteq> None then Inr (Halted c)
      else
        case hs of
          Halt_readInterrupt \<Rightarrow> Inr (Halted c)
        | Halt_readQueue \<Rightarrow>
            if length (readQueue c) < readQueue_cap c
            then Inr (Handover (c\<lparr>readQueue := readQueue c @ [readHandover]\<rparr>))
            else Inl (Blocked c)
        | Halt_never \<Rightarrow> Inl (Blocked c))"

text \<open>
  The second step is the inner \<open>select\<close>, in a later state: meanwhile the read routine
  has served the channels ahead of \<open>readHandover\<close> in the queue, by \<open>pass\<close> or by
  \<open>onReceiveError\<close>. Either the read routine accepts the interrupt, and \<open>readHandover\<close> stays
  where it is; or a value has been sent on \<open>readHandover\<close>.
\<close>

datatype handover_select = Handover_readInterrupt | Handover_readHandover

definition haltReceive_handover :: "Client \<Rightarrow> chan \<Rightarrow> handover_select \<Rightarrow> fault + Client" where
  "haltReceive_handover c readHandover hs =
     (case hs of
        Handover_readInterrupt \<Rightarrow> Inr c
      | Handover_readHandover \<Rightarrow>
          (case received_on c readHandover of
             None \<Rightarrow> Inl (Blocked c)
           | Some r \<Rightarrow> Inr c))"

text \<open>
  \<open>Close\<close>, with the channel that \<open>haltReceive\<close> makes, the outcome of its outer \<open>select\<close>
  and the result \<open>cerr\<close> of closing the socket. The call has returned its error, or waits
  in the inner \<open>select\<close> of \<open>haltReceive\<close>; from there \<open>Close_handover\<close> runs to the return.
  \<open>Close_teardown\<close> is what follows \<open>haltReceive\<close> (lines 211 to 216). Here and below, an
  operation that receives the token and sends it back unchanged leaves \<open>connSem\<close> as it
  was.
\<close>

datatype 'a called = Returned 'a | Waiting

definition Close_teardown ::
  "Client \<Rightarrow> redisConn \<Rightarrow> error option \<Rightarrow> fault + (error option called \<times> Client)" where
  "Close_teardown c conn cerr =
     then_run (cancelQueue c)
       (\<lambda>c. case Conn conn of
               Some h \<Rightarrow> Inr (Returned cerr, c\<lparr>closed := closed c @ [h]\<rparr>)
             | None \<Rightarrow> Inr (Returned None, c))"

definition Close ::
  "Client \<Rightarrow> chan \<Rightarrow> halt_select \<Rightarrow> error option
     \<Rightarrow> fault + (error option called \<times> Client)" where
  "Close c readHandover hs cerr =
     (case connSem c of
        None \<Rightarrow> Inl (Blocked c)
      | Some conn \<Rightarrow>
          if offline conn = Some ErrClosed then Inr (Returned None, c)
          else
            then_run
              (haltReceive (c\<lparr>connSem := Some \<lparr>Conn = None, offline = Some ErrClosed, idle = None\<rparr>\<rparr>)
                 conn readHandover hs)
              (\<lambda>h. case h of
                      Halted c \<Rightarrow> Close_teardown c conn cerr
                    | Handover c \<Rightarrow>
                        Inr (Waiting,
                             c\<lparr>goroutines := goroutines c @ [Go_Close_handover conn readHandover]\<rparr>)))"

definition Close_handover ::
  "Client \<Rightarrow> redisConn \<Rightarrow> chan \<Rightarrow> handover_select \<Rightarrow> error option
     \<Rightarrow> fault + (error option called \<times> Client)" where
  "Close_handover c conn readHandover hs cerr =
     then_run (haltReceive_handover c readHandover hs)
       (\<lambda>c. Close_teardown (finished (Go_Close_handover conn readHandover) [] c) conn cerr)"

text \<open>
  One round of the loop of \<open>connect\<close>, with the result of the dial. After the first
  attempt the round receives the token of the previous one, and gives it back and returns
  when the client is closed. Then it sends the new token, which waits while the semaphore
  is full. The goroutine goes on with \<open>firstAttempt = false\<close> or returns.
\<close>

datatype dialed = Dialed netConn | DialError error

definition connect_attempt :: "Client \<Rightarrow> bool \<Rightarrow> dialed \<Rightarrow> fault + Client" where
  "connect_attempt c firstAttempt d =
     (case d of
        DialError err \<Rightarrow>
          if \<not> firstAttempt then
            (case connSem c of
               None \<Rightarrow> Inl (Blocked c)
             | Some current \<Rightarrow>
                 if offline current = Some ErrClosed
                 then Inr (finished (Go_connect firstAttempt) [] c)
                 else Inr (finished (Go_connect firstAttempt) [Go_connect False]
                        (c\<lparr>connSem := Some \<lparr>Conn = None, offline = Some (Errorf_offline err),
                                              idle = None\<rparr>\<rparr>)))
          else
            (case connSem c of
               Some current \<Rightarrow> Inl (Blocked c)
             | None \<Rightarrow>
                 Inr (finished (Go_connect firstAttempt) [Go_connect False]
                        (c\<lparr>connSem := Some \<lparr>Conn = None, offline = Some (Errorf_offline err),
                                              idle = None\<rparr>\<rparr>)))
      | Dialed conn \<Rightarrow>
          if \<not> firstAttempt then
            (case connSem c of
               None \<Rightarrow> Inl (Blocked c)
             | Some current \<Rightarrow>
                 if offline current = Some ErrClosed
                 then Inr (finished (Go_connect firstAttempt) []
                        (c\<lparr>closed := closed c @ [conn]\<rparr>))
                 else Inr (finished (Go_connect firstAttempt) []
                        (c\<lparr>connSem := Some \<lparr>Conn = Some conn, offline = None,
                                              idle = Some (NewReaderSize conn conservativeMSS)\<rparr>\<rparr>)))
          else
            (case connSem c of
               Some current \<Rightarrow> Inl (Blocked c)
             | None \<Rightarrow>
                 Inr (finished (Go_connect firstAttempt) []
                        (c\<lparr>connSem := Some \<lparr>Conn = Some conn, offline = None,
                                              idle = Some (NewReaderSize conn conservativeMSS)\<rparr>\<rparr>))))"

text \<open>
  \<open>submit\<close> up to the release of the write lock (lines 285 to 323), with the result \<open>werr\<close>
  of the write. It returns the error, or the reader it owns, which is nil when the
  request's channel went into the queue. While the queue is full the call waits with the
  token in its hands. Deadlines are not part of the model.
\<close>

definition submit_write ::
  "Client \<Rightarrow> request \<Rightarrow> error option \<Rightarrow> fault + ((error + reader option) \<times> Client)" where
  "submit_write c req werr =
     (case connSem c of
        None \<Rightarrow> Inl (Blocked c)
      | Some conn \<Rightarrow>
          (case offline conn of
             Some err \<Rightarrow> Inr (Inl err, c)
           | None \<Rightarrow>
               (case Conn conn of
                  None \<Rightarrow> Inl NilDereference
                | Some h \<Rightarrow>
                    (case werr of
                       Some err \<Rightarrow>
                         Inr (Inl err,
                              c\<lparr>connSem := None,
                                goroutines := goroutines c @ [Go_submit_failed conn]\<rparr>)
                     | None \<Rightarrow>
                         (case idle conn of
                            Some reader \<Rightarrow>
                              Inr (Inr (Some reader), c\<lparr>connSem := Some (conn\<lparr>idle := None\<rparr>)\<rparr>)
                          | None \<Rightarrow>
                              if length (readQueue c) < readQueue_cap c
                              then Inr (Inr None, c\<lparr>readQueue := readQueue c @ [receive req]\<rparr>)
                              else Inl (Blocked (c\<lparr>connSem := None\<rparr>)))))))"

text \<open>
  The rest of \<open>submit\<close> (lines 325 to 339), in the state where the receive takes place:
  without a reader of its own the call receives from the request's channel; nil means
  the queue was abandoned.
\<close>

definition submit_read :: "Client \<Rightarrow> request \<Rightarrow> reader option \<Rightarrow> fault + (error + reader)" where
  "submit_read c req reader =
     (case reader of
        Some r \<Rightarrow> Inr (Inr r)
      | None \<Rightarrow>
          (case received_on c (receive req) of
             None \<Rightarrow> Inl (Blocked c)
           | Some None \<Rightarrow> Inr (Inl errConnLost)
           | Some (Some r) \<Rightarrow> Inr (Inr r)))"

text \<open>
  The goroutine that \<open>submit\<close> starts after a failed write, up to its call of \<open>connect\<close>:
  \<open>submit_failed\<close> runs to the inner \<open>select\<close> of \<open>haltReceive\<close> or to the end,
  \<open>submit_failed_handover\<close> from the inner \<open>select\<close> to the end, and
  \<open>submit_failed_teardown\<close> is what follows \<open>haltReceive\<close>.
\<close>

definition submit_failed_teardown :: "Client \<Rightarrow> redisConn \<Rightarrow> goroutine \<Rightarrow> fault + Client" where
  "submit_failed_teardown c conn g =
     then_run (cancelQueue c)
       (\<lambda>c. case Conn conn of
               None \<Rightarrow> Inl NilDereference
             | Some h \<Rightarrow> Inr (finished g [Go_connect True] (c\<lparr>closed := closed c @ [h]\<rparr>)))"

definition submit_failed :: "Client \<Rightarrow> redisConn \<Rightarrow> chan \<Rightarrow> halt_select \<Rightarrow> fault + Client" where
  "submit_failed c conn readHandover hs =
     then_run (haltReceive c conn readHandover hs)
       (\<lambda>h. case h of
               Halted c \<Rightarrow> submit_failed_teardown c conn (Go_submit_failed conn)
             | Handover c \<Rightarrow>
                 Inr (finished (Go_submit_failed conn)
                        [Go_submit_failed_handover conn readHandover] c))"

definition submit_failed_handover ::
  "Client \<Rightarrow> redisConn \<Rightarrow> chan \<Rightarrow> handover_select \<Rightarrow> fault + Client" where
  "submit_failed_handover c conn readHandover hs =
     then_run (haltReceive_handover c readHandover hs)
       (\<lambda>c. submit_failed_teardown c conn (Go_submit_failed_handover conn readHandover))"

text \<open>The goroutine that \<open>onReceiveError\<close> starts, up to its call of \<open>connect\<close>.\<close>

definition receive_failed :: "Client \<Rightarrow> redisConn \<Rightarrow> fault + Client" where
  "receive_failed c conn =
     (case Conn conn of
        None \<Rightarrow> Inl NilDereference
      | Some h \<Rightarrow>
          then_run (cancelQueue (c\<lparr>closed := closed c @ [h]\<rparr>))
            (\<lambda>c. Inr (finished (Go_receive_failed conn) [Go_connect True] c)))"

text \<open>
  \<open>onReceiveError\<close>: each round of the loop takes one case of the \<open>select\<close>, given by the
  list; a case that is not ready in the state cannot be taken. With the token of a closed
  client the routine waits for the interrupt of \<open>Close\<close>; \<open>halted\<close> says it comes. When it
  does not come the routine waits with the token in its hands, the semaphore empty.
\<close>

datatype receive_select = Err_readInterrupt | Err_readQueue | Err_connSem bool

fun onReceiveError :: "Client \<Rightarrow> receive_select list \<Rightarrow> fault + Client" where
  "onReceiveError c [] = Inl (Blocked c)"
| "onReceiveError c (Err_readInterrupt # rs) = Inr c"
| "onReceiveError c (Err_readQueue # rs) =
     (case readQueue c of
        [] \<Rightarrow> Inl (Blocked c)
      | next # rest \<Rightarrow>
          onReceiveError (c\<lparr>readQueue := rest, sent := sent c @ [(next, None)]\<rparr>) rs)"
| "onReceiveError c (Err_connSem halted # rs) =
     (case connSem c of
        None \<Rightarrow> Inl (Blocked c)
      | Some conn \<Rightarrow>
          if offline conn \<noteq> None then
            (if offline conn = Some ErrClosed \<and> \<not> halted
             then Inl (Blocked (c\<lparr>connSem := None\<rparr>))
             else Inr c)
          else
            Inr (c\<lparr>connSem := None, goroutines := goroutines c @ [Go_receive_failed conn]\<rparr>))"

text \<open>
  \<open>pass\<close>. The \<open>switch\<close> on the error decides between the error path and the handoff;
  the model returns which one ran, next to the new state. The first \<open>select\<close> looks at
  the queue. The second one is reached with the queue empty, so that its first case
  receives a channel that a \<open>submit\<close> call has queued since; after the token is received
  the inner \<open>select\<close> finds such a channel or none.
\<close>

datatype pass_select = Pass_readQueue chan | Pass_connSem "chan option" | Pass_readInterrupt

datatype pass_path = Path_onReceiveError | Path_handoff

definition pass_switch :: "error option \<Rightarrow> pass_path" where
  "pass_switch err =
     (case err of
        None \<Rightarrow> Path_handoff
      | Some e \<Rightarrow>
          if e = errNull then Path_handoff
          else (case e of ServerError msg \<Rightarrow> Path_handoff | _ \<Rightarrow> Path_onReceiveError))"

definition pass_handoff :: "Client \<Rightarrow> reader \<Rightarrow> pass_select \<Rightarrow> fault + Client" where
  "pass_handoff c r ps =
     (case readQueue c of
        next # rest \<Rightarrow> Inr (c\<lparr>readQueue := rest, sent := sent c @ [(next, Some r)]\<rparr>)
      | [] \<Rightarrow>
          (case ps of
             Pass_readQueue next \<Rightarrow> Inr (c\<lparr>sent := sent c @ [(next, Some r)]\<rparr>)
           | Pass_connSem arrived \<Rightarrow>
               (case connSem c of
                  None \<Rightarrow> Inl (Blocked c)
                | Some conn \<Rightarrow>
                    (case arrived of
                       Some next \<Rightarrow> Inr (c\<lparr>sent := sent c @ [(next, Some r)]\<rparr>)
                     | None \<Rightarrow> Inr (c\<lparr>connSem := Some (conn\<lparr>idle := Some r\<rparr>)\<rparr>)))
           | Pass_readInterrupt \<Rightarrow> Inr c))"

definition pass ::
  "Client \<Rightarrow> reader \<Rightarrow> error option \<Rightarrow> pass_select \<Rightarrow> receive_select list
     \<Rightarrow> fault + (pass_path \<times> Client)" where
  "pass c r err ps rs =
     (case pass_switch err of
        Path_onReceiveError \<Rightarrow>
          then_run (onReceiveError c rs) (\<lambda>c. Inr (Path_onReceiveError, c))
      | Path_handoff \<Rightarrow>
          then_run (pass_handoff c r ps) (\<lambda>c. Inr (Path_handoff, c)))"

text \<open>
  The states of a client: the one \<open>NewClient\<close> makes, and those in which the operations
  and the goroutines under way leave it, whether they return or wait, whatever the
  environment decides. \<open>left_in\<close> is the state after an operation, read from its result.
\<close>

definition left_in :: "fault + 'a \<Rightarrow> ('a \<Rightarrow> Client) \<Rightarrow> Client \<Rightarrow> bool" where
  "left_in res state c' =
     (case res of
        Inr x \<Rightarrow> c' = state x
      | Inl (Blocked c) \<Rightarrow> c' = c
      | Inl NilDereference \<Rightarrow> False)"

inductive reachable :: "Client \<Rightarrow> bool" where
  reach_NewClient: "reachable (NewClient addr commandTimeout' connectTimeout')"
| reach_connect:
    "reachable c \<Longrightarrow> Go_connect firstAttempt \<in> set (goroutines c) \<Longrightarrow>
     left_in (connect_attempt c firstAttempt d) (\<lambda>c. c) c' \<Longrightarrow> reachable c'"
| reach_submit:
    "reachable c \<Longrightarrow> left_in (submit_write c req werr) snd c' \<Longrightarrow> reachable c'"
| reach_submit_failed:
    "reachable c \<Longrightarrow> Go_submit_failed conn \<in> set (goroutines c) \<Longrightarrow>
     left_in (submit_failed c conn readHandover hs) (\<lambda>c. c) c' \<Longrightarrow> reachable c'"
| reach_submit_failed_handover:
    "reachable c \<Longrightarrow> Go_submit_failed_handover conn readHandover \<in> set (goroutines c) \<Longrightarrow>
     left_in (submit_failed_handover c conn readHandover hos) (\<lambda>c. c) c' \<Longrightarrow> reachable c'"
| reach_pass:
    "reachable c \<Longrightarrow> left_in (pass c r err ps rs) snd c' \<Longrightarrow> reachable c'"
| reach_receive_failed:
    "reachable c \<Longrightarrow> Go_receive_failed conn \<in> set (goroutines c) \<Longrightarrow>
     left_in (receive_failed c conn) (\<lambda>c. c) c' \<Longrightarrow> reachable c'"
| reach_Close:
    "reachable c \<Longrightarrow> left_in (Close c readHandover hs cerr) snd c' \<Longrightarrow> reachable c'"
| reach_Close_handover:
    "reachable c \<Longrightarrow> Go_Close_handover conn readHandover \<in> set (goroutines c) \<Longrightarrow>
     left_in (Close_handover c conn readHandover hos cerr) snd c' \<Longrightarrow> reachable c'"

text \<open>
  The fatal errors as the specification words them, to be compared with the \<open>switch\<close> of
  \<open>pass\<close>: an error that is neither nil, nor the null reply, nor an error reply of the
  server.
\<close>

fun fatal_spec :: "error option \<Rightarrow> bool" where
  "fatal_spec None = False"
| "fatal_spec (Some errNull) = False"
| "fatal_spec (Some (ServerError msg)) = False"
| "fatal_spec (Some e) = True"

section \<open>Properties of the integer parser\<close>

lemma digit_cases: "(d::nat) < 10 \<Longrightarrow> d \<in> {0, 1, 2, 3, 4, 5, 6, 7, 8, 9}"
  by auto

lemma digit_byte:
  assumes "d < 10"
  shows "(of_nat (of_char (char_of (48 + d :: nat))) :: byte) = 48 + of_nat d"
proof -
  have "(48 + d) mod 256 = 48 + d" using assms by simp
  then show ?thesis by simp
qed

lemma digit_ucast:
  assumes "d < 10"
  shows "(ucast ((48 + of_nat d :: byte) - 48) :: uint64) = of_nat d"
proof -
  have "(ucast (of_nat d :: byte) :: uint64) = of_nat d"
    using digit_cases [OF assms] by auto
  then show ?thesis by simp
qed

lemma digit_not_minus:
  assumes "d < 10"
  shows "(ucast (48 + of_nat d :: byte) :: uint64) \<noteq> 45"
  using digit_cases [OF assms] by auto

lemma digit_wide:
  assumes "d < 10"
  shows "(ucast (48 + of_nat d :: byte) :: uint64) - 48 = of_nat d"
  using digit_cases [OF assms] by auto

lemma formatBits_append: "formatBits u acc = formatBits u [] @ acc"
proof (induction u arbitrary: acc rule: less_induct)
  case (less u)
  show ?case
  proof (cases "u < 10")
    case True
    then show ?thesis by (simp add: formatBits.simps [of u])
  next
    case False
    then have lt: "u div 10 < u" by simp
    have "formatBits u acc = formatBits (u div 10) (char_of (48 + u mod 10) # acc)"
      using False by (simp add: formatBits.simps [of u acc])
    also have "\<dots> = formatBits (u div 10) [] @ char_of (48 + u mod 10) # acc"
      by (rule less [OF lt])
    also have "\<dots> = (formatBits (u div 10) [] @ [char_of (48 + u mod 10)]) @ acc"
      by simp
    also have "formatBits (u div 10) [] @ [char_of (48 + u mod 10)]
        = formatBits (u div 10) [char_of (48 + u mod 10)]"
      by (rule less [OF lt, symmetric])
    also have "\<dots> = formatBits u []"
      using False by (simp add: formatBits.simps [of u "[]"])
    finally show ?thesis .
  qed
qed

lemma formatBits_step:
  "\<not> u < 10 \<Longrightarrow> formatBits u [] = formatBits (u div 10) [] @ [char_of (48 + u mod 10)]"
  using formatBits_append [of "u div 10" "[char_of (48 + u mod 10)]"]
  by (simp add: formatBits.simps [of u "[]"])

lemma formatBits_small: "u < 10 \<Longrightarrow> formatBits u [] = [char_of (48 + u)]"
  by (simp add: formatBits.simps [of u "[]"])

lemma ParseInt_loop_append:
  "ParseInt_loop (xs @ ys) u = ParseInt_loop ys (ParseInt_loop xs u)"
  by (induction xs arbitrary: u) simp_all

lemma ParseInt_loop_digit:
  assumes "d < 10"
  shows "ParseInt_loop (bytes [char_of (48 + d)]) x = x * 10 + of_nat d"
  unfolding bytes_def list.map ParseInt_loop.simps digit_byte [OF assms] digit_ucast [OF assms]
  by (rule refl)

text \<open>The loop, started at zero on the digits of \<open>u\<close>, computes \<open>u\<close> modulo \<open>2 ^ 64\<close>.\<close>

lemma ParseInt_loop_formatBits:
  "ParseInt_loop (bytes (formatBits u [])) 0 = of_nat u"
proof (induction u rule: less_induct)
  case (less u)
  show ?case
  proof (cases "u < 10")
    case True
    then show ?thesis
      by (simp only: formatBits_small ParseInt_loop_digit) simp
  next
    case False
    then have lt: "u div 10 < u" by simp
    have m: "u mod 10 < 10" by simp
    have "ParseInt_loop (bytes (formatBits u [])) 0
        = ParseInt_loop (bytes [char_of (48 + u mod 10)]) (of_nat (u div 10))"
      using less [OF lt] by (simp add: formatBits_step [OF False] bytes_def ParseInt_loop_append)
    also have "\<dots> = of_nat (u div 10) * 10 + of_nat (u mod 10)"
      by (rule ParseInt_loop_digit [OF m])
    also have "\<dots> = of_nat (u div 10 * 10 + u mod 10)"
      by (simp only: of_nat_add of_nat_mult of_nat_numeral)
    also have "u div 10 * 10 + u mod 10 = u"
      by simp
    finally show ?thesis .
  qed
qed

lemma formatBits_first:
  "\<exists>d rest. d < 10 \<and> formatBits u [] = char_of (48 + d :: nat) # rest"
proof (induction u rule: less_induct)
  case (less u)
  show ?case
  proof (cases "u < 10")
    case True
    then show ?thesis using formatBits_small by blast
  next
    case False
    then have lt: "u div 10 < u" by simp
    from less [OF lt] obtain d :: nat and rest
      where "d < 10" "formatBits (u div 10) [] = char_of (48 + d) # rest"
      by blast
    then show ?thesis using formatBits_step [OF False] by auto
  qed
qed

lemma ParseInt_Cons_digit:
  assumes "d < 10"
  shows "ParseInt ((48 + of_nat d) # rest) = ParseInt_loop ((48 + of_nat d) # rest) 0"
proof -
  have "ParseInt ((48 + of_nat d) # rest) = ParseInt_loop rest (of_nat d)"
    unfolding ParseInt_def list.case Let_def
    by (simp only: digit_not_minus [OF assms] digit_wide [OF assms] if_False)
  also have "\<dots> = ParseInt_loop ((48 + of_nat d) # rest) 0"
    unfolding ParseInt_loop.simps digit_ucast [OF assms] by simp
  finally show ?thesis .
qed

lemma ParseInt_digits:
  "ParseInt (bytes (formatBits u [])) = of_nat u"
proof -
  obtain d :: nat and rest where d: "d < 10" and f: "formatBits u [] = char_of (48 + d) # rest"
    using formatBits_first by blast
  have b: "bytes (formatBits u []) = (48 + of_nat d) # bytes rest"
    unfolding f bytes_def list.map digit_byte [OF d] by (rule refl)
  show ?thesis
    using ParseInt_loop_formatBits [of u] unfolding b ParseInt_Cons_digit [OF d] .
qed

lemma ParseInt_negative:
  "ParseInt (bytes (CHR ''-'' # ds)) = - ParseInt_loop (bytes ds) 0"
  by (simp add: ParseInt_def bytes_def)

lemma sint_int64:
  "- (2 ^ 63) \<le> n \<Longrightarrow> n < 2 ^ 63 \<Longrightarrow> sint (word_of_int n :: int64) = n"
  by (simp add: sint_sbintrunc' signed_take_bit_int_eq_self)

text \<open>
  Claim C7. For every integer \<open>n\<close> of the signed 64-bit range, the minimum \<open>- 2 ^ 63\<close>
  included, \<open>ParseInt\<close> applied to the bytes of the decimal formatting of \<open>n\<close> returns
  \<open>n\<close>; said of the type, it returns every \<open>int64\<close> value \<open>i\<close> from its formatting. And
  \<open>ParseInt\<close> of the empty input returns zero.
\<close>

theorem ParseInt_FormatInt:
  "(\<forall>n::int. - (2 ^ 63) \<le> n \<and> n < 2 ^ 63 \<longrightarrow>
      sint (ParseInt (bytes (FormatInt (word_of_int n)))) = n)
   \<and> ParseInt (bytes (FormatInt i)) = i
   \<and> ParseInt [] = 0"
proof -
  have round: "ParseInt (bytes (FormatInt i)) = i" for i
  proof (cases "sint i < 0")
    case True
    then have "ParseInt (bytes (FormatInt i)) = - ParseInt_loop (bytes (formatBits (unat (- i)) [])) 0"
      by (simp add: FormatInt_def ParseInt_negative)
    then show ?thesis by (simp add: ParseInt_loop_formatBits)
  next
    case False
    then show ?thesis by (simp add: FormatInt_def ParseInt_digits)
  qed
  have "sint (ParseInt (bytes (FormatInt (word_of_int n)))) = n"
    if "- (2 ^ 63) \<le> n \<and> n < 2 ^ 63" for n :: int
    using that by (simp only: round sint_int64)
  moreover have "ParseInt [] = 0"
    by (simp add: ParseInt_def)
  ultimately show ?thesis using round by blast
qed

theorem ParseInt_FormatInt_witness:
  "- (2 ^ 63) \<le> (- 9223372036854775808 :: int)
   \<and> (- 9223372036854775808 :: int) < 2 ^ 63
   \<and> sint (ParseInt (bytes (FormatInt (word_of_int (- 9223372036854775808)))))
       = - 9223372036854775808"
proof -
  have r: "- (2 ^ 63) \<le> (- 9223372036854775808 :: int) \<and> (- 9223372036854775808 :: int) < 2 ^ 63"
    by simp
  from ParseInt_FormatInt have
    "\<forall>n::int. - (2 ^ 63) \<le> n \<and> n < 2 ^ 63 \<longrightarrow>
      sint (ParseInt (bytes (FormatInt (word_of_int n)))) = n"
    by (rule conjunct1)
  then have "sint (ParseInt (bytes (FormatInt (word_of_int (- 9223372036854775808)))))
       = - 9223372036854775808"
    using r by blast
  with r show ?thesis by blast
qed

text \<open>
  Claim C10. \<open>ParseInt\<close> applied to the one-byte input \<open>-\<close>, a minus sign followed by no
  digit, returns zero.
\<close>

theorem ParseInt_minus_only: "ParseInt (bytes ''-'') = 0"
  by (simp add: ParseInt_def bytes_def)

section \<open>Properties of the address normaliser\<close>

text \<open>
  Claim C9. \<open>normalizeAddr\<close> maps the empty string and \<open>:\<close> to \<open>localhost:6379\<close>,
  \<open>test.host\<close> to \<open>test.host:6379\<close>, \<open>:99\<close> to \<open>localhost:99\<close> and the path
  \<open>/var/redis/../run/redis.sock\<close> to \<open>/var/run/redis.sock\<close>.
\<close>

theorem normalizeAddr_golden:
  "normalizeAddr '''' = ''localhost:6379''
   \<and> normalizeAddr '':'' = ''localhost:6379''
   \<and> normalizeAddr ''test.host'' = ''test.host:6379''
   \<and> normalizeAddr '':99'' = ''localhost:99''
   \<and> normalizeAddr ''/var/redis/../run/redis.sock'' = ''/var/run/redis.sock''"
proof -
  have 1: "normalizeAddr '''' = ''localhost:6379''" by code_simp
  have 2: "normalizeAddr '':'' = ''localhost:6379''" by code_simp
  have 3: "normalizeAddr ''test.host'' = ''test.host:6379''" by code_simp
  have 4: "normalizeAddr '':99'' = ''localhost:99''" by code_simp
  have 5: "normalizeAddr ''/var/redis/../run/redis.sock'' = ''/var/run/redis.sock''"
    by code_simp
  from 1 2 3 4 5 show ?thesis by (intro conjI)
qed

subsection \<open>Indices\<close>

lemma takeWhile_upto:
  "c \<notin> set a \<Longrightarrow> takeWhile (\<lambda>x. x \<noteq> c) (a @ c # b) = a"
  by (induction a) auto

lemma takeWhile_shorter:
  "c \<in> set s \<Longrightarrow> length (takeWhile (\<lambda>x. x \<noteq> c) s) < length s"
  by (induction s) auto

lemma IndexByteString_nonneg: "IndexByteString s c \<ge> 0 \<longleftrightarrow> c \<in> set s"
  by (simp add: IndexByteString_def)

lemma IndexByteString_neg: "IndexByteString s c < 0 \<longleftrightarrow> c \<notin> set s"
  by (simp add: IndexByteString_def)

lemma IndexByteString_first:
  "c \<notin> set a \<Longrightarrow> IndexByteString (a @ c # b) c = int (length a)"
  by (simp add: IndexByteString_def takeWhile_upto)

lemma LastIndexByteString_neg: "LastIndexByteString s c < 0 \<longleftrightarrow> c \<notin> set s"
  using takeWhile_shorter [of c "rev s"] by (auto simp: LastIndexByteString_def)

lemma LastIndexByteString_last:
  assumes "c \<notin> set b"
  shows "LastIndexByteString (a @ c # b) c = int (length a)"
proof -
  have "rev (a @ c # b) = rev b @ c # rev a" by simp
  moreover have "takeWhile (\<lambda>x. x \<noteq> c) (rev b @ c # rev a) = rev b"
    using assms by (intro takeWhile_upto) simp
  ultimately have "takeWhile (\<lambda>x. x \<noteq> c) (rev (a @ c # b)) = rev b" by simp
  then show ?thesis by (simp add: LastIndexByteString_def)
qed

subsection \<open>Splitting what was joined\<close>

lemma drop_exactly: "n = length xs \<Longrightarrow> drop n (xs @ ys) = ys"
  by simp

lemma SplitHostPort_plain:
  assumes "h \<noteq> []" "CHR '':'' \<notin> set h" "CHR ''['' \<notin> set h" "CHR '']'' \<notin> set h"
    and "CHR '':'' \<notin> set p" "CHR ''['' \<notin> set p" "CHR '']'' \<notin> set p"
  shows "SplitHostPort (h @ CHR '':'' # p) = (h, p, None)"
proof -
  let ?s = "h @ CHR '':'' # p"
  have i: "LastIndexByteString ?s (CHR '':'') = int (length h)"
    by (rule LastIndexByteString_last [OF assms(5)])
  have first: "?s ! 0 \<noteq> CHR ''[''"
    using assms(1,3) by (cases h) auto
  have host: "slice ?s 0 (int (length h)) = h"
    by (simp add: slice_def)
  have nb: "IndexByteString ?s (CHR ''['') < 0" "IndexByteString ?s (CHR '']'') < 0"
    using assms by (simp_all add: IndexByteString_neg)
  have nc: "IndexByteString h (CHR '':'') < 0"
    using assms(2) by (simp add: IndexByteString_neg)
  have port: "drop (nat (int (length h) + 1)) ?s = p"
    by (simp add: nat_add_distrib)
  show ?thesis
    unfolding SplitHostPort_def Let_def i host SplitHostPort_tail_def
    using first nb nc port by simp
qed

lemma SplitHostPort_bracketed:
  assumes "CHR ''['' \<notin> set h" "CHR '']'' \<notin> set h"
    and "CHR '':'' \<notin> set p" "CHR ''['' \<notin> set p" "CHR '']'' \<notin> set p"
  shows "SplitHostPort (''['' @ h @ '']:'' @ p) = (h, p, None)"
proof -
  let ?s = "''['' @ h @ '']:'' @ p"
  have s1: "?s = (CHR ''['' # h @ '']'') @ CHR '':'' # p" by simp
  have s2: "?s = (CHR ''['' # h) @ CHR '']'' # (CHR '':'' # p)" by simp
  have i: "LastIndexByteString ?s (CHR '':'') = int (length h) + 2"
    unfolding s1 by (subst LastIndexByteString_last [OF assms(3)]) simp
  have e: "IndexByteString ?s (CHR '']'') = int (length h) + 1"
    unfolding s2 using assms(2) by (subst IndexByteString_first) simp_all
  have first: "?s ! 0 = CHR ''[''" by simp
  have len: "int (length h) + 1 + 1 \<noteq> int (length ?s)" by simp
  have host: "slice ?s 1 (int (length h) + 1) = h"
    by (simp add: slice_def nat_add_distrib)
  have j: "IndexByteString (drop (nat 1) ?s) (CHR ''['') < 0"
    using assms by (simp add: IndexByteString_neg)
  have k: "IndexByteString (drop (nat (int (length h) + 1 + 1)) ?s) (CHR '']'') < 0"
    using assms by (simp add: IndexByteString_neg nat_add_distrib)
  have port: "drop (nat (int (length h) + 2 + 1)) ?s = p"
  proof -
    have "drop (nat (int (length h) + 2 + 1)) ((CHR ''['' # h @ '']:'') @ p) = p"
      by (rule drop_exactly) simp
    then show ?thesis by simp
  qed
  show ?thesis
    unfolding SplitHostPort_def Let_def i e SplitHostPort_tail_def host
    using first len j k port by simp
qed

lemma normalizeAddr_joined:
  assumes "h \<noteq> []" "CHR ''['' \<notin> set h" "CHR '']'' \<notin> set h"
    and "p \<noteq> []" "CHR '':'' \<notin> set p" "CHR ''['' \<notin> set p" "CHR '']'' \<notin> set p"
    and "CHR '':'' \<in> set h \<or> \<not> isUnixAddr h"
  shows "normalizeAddr (JoinHostPort h p) = JoinHostPort h p"
proof (cases "CHR '':'' \<in> set h")
  case True
  then have j: "JoinHostPort h p = ''['' @ h @ '']:'' @ p"
    by (simp add: JoinHostPort_def IndexByteString_nonneg)
  have u: "\<not> isUnixAddr (''['' @ h @ '']:'' @ p)"
    by (simp add: isUnixAddr_def)
  have "normalizeAddr (''['' @ h @ '']:'' @ p) = JoinHostPort h p"
    unfolding normalizeAddr_def SplitHostPort_bracketed [OF assms(2,3,5,6,7)]
    using u assms(1,4) by simp
  then show ?thesis by (simp only: j)
next
  case False
  then have j: "JoinHostPort h p = h @ CHR '':'' # p"
    by (simp add: JoinHostPort_def IndexByteString_def)
  from False assms(8) have "\<not> isUnixAddr h" by simp
  then have u: "\<not> isUnixAddr (h @ CHR '':'' # p)"
    using assms(1) by (cases h) (simp_all add: isUnixAddr_def)
  have "normalizeAddr (h @ CHR '':'' # p) = JoinHostPort h p"
    unfolding normalizeAddr_def SplitHostPort_plain [OF assms(1) False assms(2,3,5,6,7)]
    using u assms(1,4) by simp
  then show ?thesis by (simp only: j)
qed

subsection \<open>What a split yields\<close>

lemma SplitHostPort_error:
  assumes "SplitHostPort s = (h, p, Some e)"
  shows "h = [] \<and> p = []"
  using assms
  by (auto simp: SplitHostPort_def SplitHostPort_tail_def addrErr_def Let_def split: if_splits)

lemma drop_after_last:
  assumes "c \<in> set s"
  shows "c \<notin> set (drop (nat (LastIndexByteString s c + 1)) s)"
proof -
  from split_list_last [OF assms] obtain a b where s: "s = a @ c # b" and b: "c \<notin> set b"
    by blast
  have "drop (nat (int (length a) + 1)) (a @ c # b) = b"
    by (simp add: nat_add_distrib)
  then show ?thesis
    unfolding s LastIndexByteString_last [OF b] using b by simp
qed

lemma set_slice_from: "set (slice s i j) \<subseteq> set (drop (nat i) s)"
  unfolding slice_def by (rule set_take_subset)

lemma set_slice_upto: "set (slice s i j) \<subseteq> set (take (nat j) s)"
proof -
  have "slice s i j = drop (nat i) (take (nat j) s)"
    by (simp add: slice_def drop_take)
  then show ?thesis by (simp add: set_drop_subset)
qed

lemma before_first:
  "c \<notin> set (take (nat (IndexByteString s c)) s)"
proof (cases "c \<in> set s")
  case True
  from split_list_first [OF True] obtain a b where s: "s = a @ c # b" and a: "c \<notin> set a"
    by blast
  show ?thesis unfolding s IndexByteString_first [OF a] using a by simp
next
  case False
  then show ?thesis by (auto dest: in_set_takeD)
qed

lemma SplitHostPort_clean:
  assumes "SplitHostPort s = (h, p, None)"
  shows "CHR ''['' \<notin> set h \<and> CHR '']'' \<notin> set h
         \<and> CHR '':'' \<notin> set p \<and> CHR ''['' \<notin> set p \<and> CHR '']'' \<notin> set p"
proof -
  let ?i = "LastIndexByteString s (CHR '':'')"
  let ?e = "IndexByteString s (CHR '']'')"
  from assms have colon: "CHR '':'' \<in> set s"
    by (auto simp: SplitHostPort_def Let_def addrErr_def LastIndexByteString_neg
        split: if_splits)
  have p: "p = drop (nat (?i + 1)) s"
    using assms
    by (auto simp: SplitHostPort_def SplitHostPort_tail_def addrErr_def Let_def
        split: if_splits)
  have pc: "CHR '':'' \<notin> set p"
    unfolding p by (rule drop_after_last [OF colon])
  show ?thesis
  proof (cases "s ! 0 = CHR ''[''")
    case True
    with assms have e: "?e + 1 = ?i" and h: "h = slice s 1 ?e"
      and j: "CHR ''['' \<notin> set (drop (nat 1) s)"
      and k: "CHR '']'' \<notin> set (drop (nat (?e + 1)) s)"
      by (auto simp: SplitHostPort_def SplitHostPort_tail_def addrErr_def Let_def
          IndexByteString_nonneg split: if_splits)
    have "set h \<subseteq> set (drop (nat 1) s)"
      unfolding h by (rule set_slice_from)
    with j have h1: "CHR ''['' \<notin> set h" by blast
    have "set h \<subseteq> set (take (nat ?e) s)"
      unfolding h by (rule set_slice_upto)
    with before_first [of "CHR '']''" s] have h2: "CHR '']'' \<notin> set h" by blast
    have "0 \<le> ?i"
      using colon LastIndexByteString_neg [of s "CHR '':''"] by simp
    then have "nat 1 \<le> nat (?i + 1)" by simp
    then have "set p \<subseteq> set (drop (nat 1) s)"
      unfolding p by (rule set_drop_subset_set_drop)
    with j have p1: "CHR ''['' \<notin> set p" by blast
    have "set p \<subseteq> set (drop (nat (?e + 1)) s)"
      unfolding p e by (intro set_drop_subset_set_drop) simp
    with k have p2: "CHR '']'' \<notin> set p" by blast
    from h1 h2 pc p1 p2 show ?thesis by simp
  next
    case False
    with assms have h: "h = slice s 0 ?i"
      and j: "CHR ''['' \<notin> set s" and k: "CHR '']'' \<notin> set s"
      by (auto simp: SplitHostPort_def SplitHostPort_tail_def addrErr_def Let_def
          IndexByteString_nonneg split: if_splits)
    have "set h \<subseteq> set s"
      unfolding h slice_def by (meson set_take_subset set_drop_subset subset_trans)
    moreover have "set p \<subseteq> set s"
      unfolding p by (rule set_drop_subset)
    ultimately show ?thesis using j k pc by blast
  qed
qed

lemma SplitHostPort_prefix:
  assumes "SplitHostPort s = (h, p, None)" "CHR ''['' \<notin> set s"
  shows "\<exists>n. h = take n s"
proof -
  from assms(1) have "CHR '':'' \<in> set s"
    by (auto simp: SplitHostPort_def Let_def addrErr_def LastIndexByteString_neg
        split: if_splits)
  then have "s \<noteq> []" by auto
  with assms(2) have "s ! 0 \<noteq> CHR ''[''"
    by (cases s) auto
  with assms(1) have "h = slice s 0 (LastIndexByteString s (CHR '':''))"
    by (auto simp: SplitHostPort_def SplitHostPort_tail_def addrErr_def Let_def
        split: if_splits)
  then show ?thesis by (auto simp: slice_def)
qed

lemma isUnixAddr_take: "isUnixAddr (take n s) \<Longrightarrow> isUnixAddr s"
  by (cases s; cases n) (simp_all add: isUnixAddr_def)

subsection \<open>The steps of the loop of Clean\<close>

lemma Clean_loop_separator:
  "Clean_loop rooted (CHR ''/'' # cs) out dotdot = Clean_loop rooted cs out dotdot"
  by (simp add: Clean_loop.simps)

lemma Clean_loop_dot:
  assumes "rest = [] \<or> hd rest = CHR ''/''"
  shows "Clean_loop rooted (CHR ''.'' # rest) out dotdot = Clean_loop rooted rest out dotdot"
  using assms by (cases rest) (simp_all add: Clean_loop.simps)

lemma Clean_loop_dotdot:
  assumes "rest = [] \<or> hd rest = CHR ''/''"
  shows "Clean_loop True (CHR ''.'' # CHR ''.'' # rest) out 1
     = Clean_loop True rest
         (if length out > 1 then take (Clean_backtrack out 1 (length out - 1)) out else out) 1"
  using assms by (cases rest) (simp_all add: Clean_loop.simps)

lemma takeWhile_element:
  assumes "CHR ''/'' \<notin> set f" "rest = [] \<or> hd rest = CHR ''/''"
  shows "takeWhile (\<lambda>x. x \<noteq> CHR ''/'') (f @ rest) = f"
    and "dropWhile (\<lambda>x. x \<noteq> CHR ''/'') (f @ rest) = rest"
  using assms by (cases rest; induction f; auto)+

lemma Clean_loop_element:
  assumes "f \<noteq> []" "CHR ''/'' \<notin> set f" "f \<noteq> ''.''" "f \<noteq> ''..''"
    and "rest = [] \<or> hd rest = CHR ''/''"
  shows "Clean_loop True (f @ rest) out 1
     = Clean_loop True rest ((if length out \<noteq> 1 then out @ ''/'' else out) @ f) 1"
proof -
  from assms(1) obtain c cs where f: "f = c # cs" by (cases f) auto
  have c: "c \<noteq> CHR ''/''" using assms(2) f by auto
  have no_dot: "\<not> (c = CHR ''.'' \<and> (case cs @ rest of [] \<Rightarrow> True | d # _ \<Rightarrow> d = CHR ''/''))"
  proof (cases cs)
    case Nil
    with assms(3) f show ?thesis by simp
  next
    case (Cons d ds)
    with assms(2) f show ?thesis by auto
  qed
  have no_dotdot: "\<not> (c = CHR ''.'' \<and>
      (case cs @ rest of [] \<Rightarrow> False
       | d # ds \<Rightarrow> d = CHR ''.'' \<and> (case ds of [] \<Rightarrow> True | e # _ \<Rightarrow> e = CHR ''/'')))"
  proof (cases cs)
    case Nil
    with assms(5) show ?thesis by (cases rest) auto
  next
    case (Cons d ds)
    show ?thesis
    proof (cases ds)
      case Nil
      with Cons assms(4) f show ?thesis by auto
    next
      case (Cons e es)
      with \<open>cs = d # ds\<close> assms(2) f show ?thesis by auto
    qed
  qed
  have "Clean_loop True ((c # cs) @ rest) out 1
      = Clean_loop True (dropWhile (\<lambda>x. x \<noteq> CHR ''/'') (c # cs @ rest))
          ((if length out \<noteq> 1 then out @ ''/'' else out)
            @ takeWhile (\<lambda>x. x \<noteq> CHR ''/'') (c # cs @ rest)) 1"
    using c no_dot no_dotdot
    by (simp only: append_Cons Clean_loop.simps Let_def if_False simp_thms)
  then show ?thesis
    using takeWhile_element [OF assms(2,5)] by (simp add: f)
qed

lemma Clean_backtrack_element:
  assumes "CHR ''/'' \<notin> set e" "k \<le> length e" "1 \<le> length base + k"
  shows "Clean_backtrack (base @ CHR ''/'' # e) 1 (length base + k) = max 1 (length base)"
  using assms(2,3)
proof (induction k)
  case 0
  then show ?case
    by (simp add: Clean_backtrack.simps [of _ _ "length base"])
next
  case (Suc k)
  let ?out = "base @ CHR ''/'' # e"
  let ?w = "length base + Suc k"
  have at: "?out ! ?w = e ! k"
    by (simp add: nth_append)
  have "e ! k \<in> set e" using Suc.prems by simp
  with assms(1) have ne: "?out ! ?w \<noteq> CHR ''/''" unfolding at by metis
  show ?case
  proof (cases "?w > 1")
    case True
    then have "Clean_backtrack ?out 1 ?w = Clean_backtrack ?out 1 (length base + k)"
      using ne by (subst Clean_backtrack.simps) simp
    also have "\<dots> = max 1 (length base)"
      using Suc.IH Suc.prems True by simp
    finally show ?thesis .
  next
    case False
    then have "length base = 0" "k = 0" by simp_all
    then show ?thesis
      by (simp add: Clean_backtrack.simps [of _ _ "Suc 0"])
  qed
qed

subsection \<open>Rooted paths in clean form\<close>

text \<open>
  A rooted path in clean form is \<open>/\<close>, or a list of elements, each after a separator;
  an element is not empty, has no separator and is neither \<open>.\<close> nor \<open>..\<close>.
\<close>

lemma clean_form_length:
  assumes "(\<forall>e\<in>set es. e \<noteq> [] \<and> CHR ''/'' \<notin> set e \<and> e \<noteq> ''.'' \<and> e \<noteq> ''..'')" "es \<noteq> []"
  shows "length (concat (map ((#) CHR ''/'') es)) > 1"
proof -
  from assms(2) obtain e fs where es: "es = e # fs" by (cases es) auto
  with assms(1) have "e \<noteq> []" by simp
  then show ?thesis unfolding es by (cases e) simp_all
qed

lemma clean_form_push:
  assumes "(\<forall>e\<in>set es. e \<noteq> [] \<and> CHR ''/'' \<notin> set e \<and> e \<noteq> ''.'' \<and> e \<noteq> ''..'')"
  shows "(if length (if es = [] then ''/'' else concat (map ((#) CHR ''/'') es)) \<noteq> 1 then (if es = [] then ''/'' else concat (map ((#) CHR ''/'') es)) @ ''/'' else (if es = [] then ''/'' else concat (map ((#) CHR ''/'') es))) @ f = (if (es @ [f]) = [] then ''/'' else concat (map ((#) CHR ''/'') (es @ [f])))"
proof (cases "es = []")
  case True
  then show ?thesis by simp
next
  case False
  with clean_form_length [OF assms False] show ?thesis by simp
qed

lemma clean_form_pop:
  assumes "(\<forall>e\<in>set es. e \<noteq> [] \<and> CHR ''/'' \<notin> set e \<and> e \<noteq> ''.'' \<and> e \<noteq> ''..'')"
  shows "(if length (if es = [] then ''/'' else concat (map ((#) CHR ''/'') es)) > 1
          then take (Clean_backtrack (if es = [] then ''/'' else concat (map ((#) CHR ''/'') es)) 1 (length (if es = [] then ''/'' else concat (map ((#) CHR ''/'') es)) - 1)) (if es = [] then ''/'' else concat (map ((#) CHR ''/'') es))
          else (if es = [] then ''/'' else concat (map ((#) CHR ''/'') es))) = (if (butlast es) = [] then ''/'' else concat (map ((#) CHR ''/'') (butlast es)))"
proof (cases "es = []")
  case True
  then show ?thesis by simp
next
  case False
  then obtain fs e where es: "es = fs @ [e]"
    by (metis append_butlast_last_id)
  let ?base = "concat (map ((#) CHR ''/'') fs)"
  have out: "concat (map ((#) CHR ''/'') es) = ?base @ CHR ''/'' # e"
    by (simp add: es)
  from assms es have e: "CHR ''/'' \<notin> set e" "e \<noteq> []" by simp_all
  from assms es have fs: "(\<forall>e\<in>set fs. e \<noteq> [] \<and> CHR ''/'' \<notin> set e \<and> e \<noteq> ''.'' \<and> e \<noteq> ''..'')" by simp
  have "1 \<le> length ?base + length e" using e(2) by (cases e) simp_all
  from Clean_backtrack_element [OF e(1) le_refl this]
  have w: "Clean_backtrack (?base @ CHR ''/'' # e) 1 (length ?base + length e)
      = max 1 (length ?base)" .
  have t: "take (max 1 (length ?base)) (?base @ CHR ''/'' # e) = (if fs = [] then ''/'' else concat (map ((#) CHR ''/'') fs))"
  proof (cases "fs = []")
    case True
    then show ?thesis by simp
  next
    case False
    from clean_form_length [OF fs False] have "max 1 (length ?base) = length ?base"
      by simp
    then show ?thesis using False by simp
  qed
  have "length (concat (map ((#) CHR ''/'') es)) - 1 = length ?base + length e"
    by (simp add: out)
  with w t clean_form_length [OF assms False] False show ?thesis
    by (simp add: out es)
qed

lemma Clean_loop_clean_form:
  assumes "(\<forall>e\<in>set es. e \<noteq> [] \<and> CHR ''/'' \<notin> set e \<and> e \<noteq> ''.'' \<and> e \<noteq> ''..'')"
  shows "\<exists>es'. (\<forall>e\<in>set es'. e \<noteq> [] \<and> CHR ''/'' \<notin> set e \<and> e \<noteq> ''.'' \<and> e \<noteq> ''..'') \<and> Clean_loop True path (if es = [] then ''/'' else concat (map ((#) CHR ''/'') es)) 1 = (if es' = [] then ''/'' else concat (map ((#) CHR ''/'') es'))"
  using assms
proof (induction "length path" arbitrary: path es rule: less_induct)
  case less
  show ?case
  proof (cases path)
    case Nil
    with less.prems show ?thesis
      by (intro exI [of _ es]) (simp add: Clean_loop.simps)
  next
    case (Cons c cs)
    show ?thesis
    proof (cases "c = CHR ''/''")
      case True
      have "length cs < length path" using Cons by simp
      from less.hyps [OF this less.prems] show ?thesis
        unfolding Cons True Clean_loop_separator .
    next
      case False
      define f where "f = takeWhile (\<lambda>x. x \<noteq> CHR ''/'') path"
      define rest where "rest = dropWhile (\<lambda>x. x \<noteq> CHR ''/'') path"
      have path: "path = f @ rest" by (simp add: f_def rest_def)
      have f: "f \<noteq> []" "CHR ''/'' \<notin> set f"
        using False Cons by (auto simp: f_def dest: set_takeWhileD)
      have rest: "rest = [] \<or> hd rest = CHR ''/''"
        unfolding rest_def using hd_dropWhile [of "\<lambda>x. x \<noteq> CHR ''/''" path] by auto
      have shorter: "length rest < length path"
        using f(1) by (simp add: path)
      show ?thesis
      proof (cases "f = ''.''")
        case True
        from less.hyps [OF shorter less.prems] show ?thesis
          unfolding path True using Clean_loop_dot [OF rest] by simp
      next
        case not_dot: False
        show ?thesis
        proof (cases "f = ''..''")
          case True
          from less.prems have "(\<forall>e\<in>set (butlast es). e \<noteq> [] \<and> CHR ''/'' \<notin> set e \<and> e \<noteq> ''.'' \<and> e \<noteq> ''..'')"
            by (auto dest: in_set_butlastD)
          from less.hyps [OF shorter this] show ?thesis
            unfolding path True using Clean_loop_dotdot [OF rest] clean_form_pop [OF less.prems]
            by simp
        next
          case False
          from less.prems f not_dot False have "(\<forall>e\<in>set (es @ [f]). e \<noteq> [] \<and> CHR ''/'' \<notin> set e \<and> e \<noteq> ''.'' \<and> e \<noteq> ''..'')" by simp
          from less.hyps [OF shorter this] show ?thesis
            unfolding path
            using Clean_loop_element [OF f not_dot False rest] clean_form_push [OF less.prems]
            by simp
        qed
      qed
    qed
  qed
qed

lemma Clean_loop_fixpoint:
  assumes "(\<forall>e\<in>set es. e \<noteq> [] \<and> CHR ''/'' \<notin> set e \<and> e \<noteq> ''.'' \<and> e \<noteq> ''..'')" "(\<forall>e\<in>set fs. e \<noteq> [] \<and> CHR ''/'' \<notin> set e \<and> e \<noteq> ''.'' \<and> e \<noteq> ''..'')" "fs \<noteq> []"
  shows "Clean_loop True (hd fs @ concat (map ((#) CHR ''/'') (tl fs))) (if es = [] then ''/'' else concat (map ((#) CHR ''/'') es)) 1 = (if (es @ fs) = [] then ''/'' else concat (map ((#) CHR ''/'') (es @ fs)))"
  using assms
proof (induction fs arbitrary: es)
  case Nil
  then show ?case by simp
next
  case (Cons f gs)
  let ?rest = "concat (map ((#) CHR ''/'') gs)"
  from Cons.prems have f: "f \<noteq> []" "CHR ''/'' \<notin> set f" "f \<noteq> ''.''" "f \<noteq> ''..''"
    by simp_all
  have rest: "?rest = [] \<or> hd ?rest = CHR ''/''"
    by (cases gs) simp_all
  from Cons.prems f have esf: "(\<forall>e\<in>set (es @ [f]). e \<noteq> [] \<and> CHR ''/'' \<notin> set e \<and> e \<noteq> ''.'' \<and> e \<noteq> ''..'')" by simp
  have step: "Clean_loop True (f @ ?rest) (if es = [] then ''/'' else concat (map ((#) CHR ''/'') es)) 1 = Clean_loop True ?rest (if (es @ [f]) = [] then ''/'' else concat (map ((#) CHR ''/'') (es @ [f]))) 1"
    using Clean_loop_element [OF f rest] clean_form_push [OF Cons.prems(1)] by simp
  show ?case
  proof (cases gs)
    case Nil
    with step show ?thesis by (simp add: Clean_loop.simps)
  next
    case (Cons g hs)
    from Cons.prems(2) have gs: "(\<forall>e\<in>set gs. e \<noteq> [] \<and> CHR ''/'' \<notin> set e \<and> e \<noteq> ''.'' \<and> e \<noteq> ''..'')" by simp
    have "Clean_loop True ?rest (if (es @ [f]) = [] then ''/'' else concat (map ((#) CHR ''/'') (es @ [f]))) 1
        = Clean_loop True (hd gs @ concat (map ((#) CHR ''/'') (tl gs))) (if (es @ [f]) = [] then ''/'' else concat (map ((#) CHR ''/'') (es @ [f]))) 1"
      unfolding Cons by (simp add: Clean_loop_separator)
    also have "\<dots> = (if ((es @ [f]) @ gs) = [] then ''/'' else concat (map ((#) CHR ''/'') ((es @ [f]) @ gs)))"
      using Cons.IH [OF esf gs] Cons by simp
    finally show ?thesis using step by simp
  qed
qed

lemma Clean_rooted:
  assumes "isUnixAddr s"
  shows "\<exists>es. (\<forall>e\<in>set es. e \<noteq> [] \<and> CHR ''/'' \<notin> set e \<and> e \<noteq> ''.'' \<and> e \<noteq> ''..'') \<and> Clean s = (if es = [] then ''/'' else concat (map ((#) CHR ''/'') es))"
proof -
  from assms obtain s' where s: "s = CHR ''/'' # s'"
    by (cases s) (auto simp: isUnixAddr_def)
  have "(\<forall>e\<in>set ([]). e \<noteq> [] \<and> CHR ''/'' \<notin> set e \<and> e \<noteq> ''.'' \<and> e \<noteq> ''..'')" by simp
  from Clean_loop_clean_form [OF this, of s'] obtain es where
    es: "(\<forall>e\<in>set es. e \<noteq> [] \<and> CHR ''/'' \<notin> set e \<and> e \<noteq> ''.'' \<and> e \<noteq> ''..'')" "Clean_loop True s' ''/'' 1 = (if es = [] then ''/'' else concat (map ((#) CHR ''/'') es))"
    by auto
  have "(if es = [] then ''/'' else concat (map ((#) CHR ''/'') es)) \<noteq> []" by (cases es) simp_all
  with es have "Clean s = (if es = [] then ''/'' else concat (map ((#) CHR ''/'') es))"
    by (simp add: Clean_def s)
  with es(1) show ?thesis by blast
qed

lemma Clean_clean_form:
  assumes "(\<forall>e\<in>set es. e \<noteq> [] \<and> CHR ''/'' \<notin> set e \<and> e \<noteq> ''.'' \<and> e \<noteq> ''..'')"
  shows "Clean (if es = [] then ''/'' else concat (map ((#) CHR ''/'') es)) = (if es = [] then ''/'' else concat (map ((#) CHR ''/'') es))"
proof (cases es)
  case Nil
  then show ?thesis by (simp add: Clean_def Clean_loop.simps)
next
  case (Cons e fs)
  have "(\<forall>e\<in>set ([]). e \<noteq> [] \<and> CHR ''/'' \<notin> set e \<and> e \<noteq> ''.'' \<and> e \<noteq> ''..'')" by simp
  from Clean_loop_fixpoint [OF this assms] Cons
  have "Clean_loop True (e @ concat (map ((#) CHR ''/'') fs)) ''/'' 1 = (if es = [] then ''/'' else concat (map ((#) CHR ''/'') es))"
    by simp
  then show ?thesis by (simp add: Clean_def Cons)
qed

lemma Clean_idempotent_rooted:
  assumes "isUnixAddr s"
  shows "Clean (Clean s) = Clean s \<and> isUnixAddr (Clean s)"
proof -
  from Clean_rooted [OF assms] obtain es where es: "(\<forall>e\<in>set es. e \<noteq> [] \<and> CHR ''/'' \<notin> set e \<and> e \<noteq> ''.'' \<and> e \<noteq> ''..'')" "Clean s = (if es = [] then ''/'' else concat (map ((#) CHR ''/'') es))"
    by blast
  have "isUnixAddr (if es = [] then ''/'' else concat (map ((#) CHR ''/'') es))"
    by (cases es) (simp_all add: isUnixAddr_def)
  with Clean_clean_form [OF es(1)] es(2) show ?thesis by simp
qed

subsection \<open>Idempotence\<close>

text \<open>
  Claim C8, as amended. \<open>normalizeAddr\<close> is idempotent on every address that is an
  absolute path, on every address without a square bracket, and on every address that
  \<open>net.SplitHostPort\<close> splits into a port and a host that does not start with a slash.
\<close>

theorem normalizeAddr_idempotent:
  assumes "isUnixAddr s
           \<or> (CHR ''['' \<notin> set s \<and> CHR '']'' \<notin> set s)
           \<or> (\<exists>host port. SplitHostPort s = (host, port, None) \<and> \<not> isUnixAddr host)"
  shows "normalizeAddr (normalizeAddr s) = normalizeAddr s"
proof (cases "isUnixAddr s")
  case True
  then have "normalizeAddr s = Clean s" by (simp add: normalizeAddr_def)
  with Clean_idempotent_rooted [OF True] show ?thesis
    by (simp add: normalizeAddr_def)
next
  case False
  obtain h p err where split: "SplitHostPort s = (h, p, err)"
    by (cases "SplitHostPort s") auto
  define h' where "h' = (if (if err \<noteq> None then s else h) = ''''
                          then ''localhost'' else (if err \<noteq> None then s else h))"
  define p' where "p' = (if p = '''' then ''6379'' else p)"
  have n: "normalizeAddr s = JoinHostPort h' p'"
    using False by (simp add: normalizeAddr_def split h'_def p'_def)
  have local: "\<not> isUnixAddr ''localhost''" "CHR ''['' \<notin> set ''localhost''"
    "CHR '']'' \<notin> set ''localhost''"
    by (simp_all add: isUnixAddr_def)
  have "h' \<noteq> [] \<and> CHR ''['' \<notin> set h' \<and> CHR '']'' \<notin> set h' \<and> \<not> isUnixAddr h'
        \<and> p' \<noteq> [] \<and> CHR '':'' \<notin> set p' \<and> CHR ''['' \<notin> set p' \<and> CHR '']'' \<notin> set p'"
  proof (cases err)
    case None
    from SplitHostPort_clean [OF split [unfolded None]]
    have c: "CHR ''['' \<notin> set h" "CHR '']'' \<notin> set h"
      "CHR '':'' \<notin> set p" "CHR ''['' \<notin> set p" "CHR '']'' \<notin> set p"
      by simp_all
    have "\<not> isUnixAddr h"
    proof (cases "CHR ''['' \<notin> set s")
      case True
      from SplitHostPort_prefix [OF split [unfolded None] True] False show ?thesis
        using isUnixAddr_take by blast
    next
      case bracket: False
      with assms False split None show ?thesis by auto
    qed
    with c local show ?thesis
      by (simp add: h'_def p'_def None)
  next
    case (Some e)
    from SplitHostPort_error [OF split [unfolded Some]] have p: "p = []" by simp
    from assms False split Some have "CHR ''['' \<notin> set s \<and> CHR '']'' \<notin> set s"
      by auto
    with False local show ?thesis
      by (simp add: h'_def p'_def Some p)
  qed
  then have "normalizeAddr (JoinHostPort h' p') = JoinHostPort h' p'"
    by (intro normalizeAddr_joined) simp_all
  then show ?thesis by (simp only: n)
qed

theorem normalizeAddr_idempotent_witness:
  "isUnixAddr ''/var/redis/../run/redis.sock''
   \<and> normalizeAddr (normalizeAddr ''/var/redis/../run/redis.sock'')
       = normalizeAddr ''/var/redis/../run/redis.sock''
   \<and> CHR ''['' \<notin> set ''test.host'' \<and> CHR '']'' \<notin> set ''test.host''
   \<and> normalizeAddr (normalizeAddr ''test.host'') = normalizeAddr ''test.host''
   \<and> SplitHostPort ''[::1]:6379'' = (''::1'', ''6379'', None) \<and> \<not> isUnixAddr ''::1''
   \<and> normalizeAddr (normalizeAddr ''[::1]:6379'') = normalizeAddr ''[::1]:6379''"
proof -
  have u: "isUnixAddr ''/var/redis/../run/redis.sock''" by code_simp
  have b: "CHR ''['' \<notin> set ''test.host'' \<and> CHR '']'' \<notin> set ''test.host''" by simp
  have s: "SplitHostPort ''[::1]:6379'' = (''::1'', ''6379'', None)" by code_simp
  have h: "\<not> isUnixAddr ''::1''" by code_simp
  have 1: "normalizeAddr (normalizeAddr ''/var/redis/../run/redis.sock'')
       = normalizeAddr ''/var/redis/../run/redis.sock''"
    using u by (intro normalizeAddr_idempotent) simp
  have 2: "normalizeAddr (normalizeAddr ''test.host'') = normalizeAddr ''test.host''"
    using b by (intro normalizeAddr_idempotent) simp
  have 3: "normalizeAddr (normalizeAddr ''[::1]:6379'') = normalizeAddr ''[::1]:6379''"
    using s h by (intro normalizeAddr_idempotent) blast
  from u b s h 1 2 3 show ?thesis by simp
qed

text \<open>
  The claim as it was stated, for every string, fails on \<open>[a]\<close>: without a port the
  split fails and the whole string becomes the host, \<open>[a]:6379\<close>; this splits, into the
  host \<open>a\<close>.
\<close>

theorem normalizeAddr_idempotent_counterexample:
  "normalizeAddr ''[a]'' = ''[a]:6379''
   \<and> normalizeAddr (normalizeAddr ''[a]'') = ''a:6379''
   \<and> normalizeAddr (normalizeAddr ''[a]'') \<noteq> normalizeAddr ''[a]''"
proof -
  have 1: "normalizeAddr ''[a]'' = ''[a]:6379''" by code_simp
  have 2: "normalizeAddr ''[a]:6379'' = ''a:6379''" by code_simp
  show ?thesis unfolding 1 2 by simp
qed

section \<open>Properties of the client\<close>

lemma NewClient_fields:
  "connSem (NewClient addr a b) = None"
  "readQueue (NewClient addr a b) = []"
  "goroutines (NewClient addr a b) = [Go_connect True]"
  "sent (NewClient addr a b) = []"
  "closed (NewClient addr a b) = []"
  by (simp_all add: NewClient_def Let_def)

text \<open>
  Claim C3, as amended. \<open>NewClient\<close> sizes the queue of pending reads per transport: the
  capacity is 512 for a Unix socket address and 128 for a TCP address, the bound for the
  Unix socket being the larger one.
\<close>

theorem NewClient_queue_capacity:
  "readQueue_cap (NewClient addr commandTimeout' connectTimeout')
     = (if isUnixAddr (normalizeAddr addr) then 512 else 128)
   \<and> queueSizeUnix = 512 \<and> queueSizeTCP = 128 \<and> queueSizeTCP < queueSizeUnix"
  by (simp add: NewClient_def Let_def queueSizeUnix_def queueSizeTCP_def)

theorem NewClient_queue_capacity_witness:
  "isUnixAddr (normalizeAddr ''/var/run/redis.sock'')
   \<and> readQueue_cap (NewClient ''/var/run/redis.sock'' 0 0) = 512
   \<and> \<not> isUnixAddr (normalizeAddr ''localhost:6379'')
   \<and> readQueue_cap (NewClient ''localhost:6379'' 0 0) = 128"
proof -
  have u: "isUnixAddr (normalizeAddr ''/var/run/redis.sock'')" by code_simp
  have t: "\<not> isUnixAddr (normalizeAddr ''localhost:6379'')" by code_simp
  show ?thesis
    using u t NewClient_queue_capacity [of "''/var/run/redis.sock''" 0 0]
      NewClient_queue_capacity [of "''localhost:6379''" 0 0]
    by simp
qed

text \<open>
  The claim as it was stated, capacity 128 for the Unix socket and 512 for TCP, fails on
  both transports.
\<close>

theorem NewClient_queue_capacity_counterexample:
  "readQueue_cap (NewClient ''/var/run/redis.sock'' 0 0) \<noteq> 128
   \<and> readQueue_cap (NewClient ''localhost:6379'' 0 0) \<noteq> 512"
proof -
  have u: "readQueue_cap (NewClient ''/var/run/redis.sock'' 0 0) = 512" by code_simp
  have t: "readQueue_cap (NewClient ''localhost:6379'' 0 0) = 128" by code_simp
  show ?thesis unfolding u t by simp
qed

subsection \<open>Draining the queue\<close>

lemma cancelQueue_loop_requests:
  "readQueue c = map ReqReceive ks @ rest \<Longrightarrow>
   cancelQueue_loop (length ks) c
     = Inr (c\<lparr>readQueue := rest, sent := sent c @ map (\<lambda>k. (ReqReceive k, None)) ks\<rparr>)"
proof (induction ks arbitrary: c)
  case Nil
  then show ?case by simp
next
  case (Cons k ks)
  let ?c1 = "c\<lparr>readQueue := map ReqReceive ks @ rest, sent := sent c @ [(ReqReceive k, None)]\<rparr>"
  have "cancelQueue_loop (length (k # ks)) c = cancelQueue_loop (length ks) ?c1"
    using Cons.prems by simp
  also have "\<dots> = Inr (?c1\<lparr>readQueue := rest,
      sent := sent ?c1 @ map (\<lambda>k. (ReqReceive k, None)) ks\<rparr>)"
    by (rule Cons.IH) simp
  finally show ?case by simp
qed

lemma cancelQueue_requests:
  assumes "readQueue c = map ReqReceive ks"
  shows "cancelQueue c
     = Inr (c\<lparr>readQueue := [], sent := sent c @ map (\<lambda>k. (ReqReceive k, None)) ks\<rparr>)"
proof -
  have "readQueue c = map ReqReceive ks @ []" using assms by simp
  from cancelQueue_loop_requests [OF this] show ?thesis
    by (simp add: cancelQueue_def assms)
qed

lemma cancelQueue_loop_add:
  "cancelQueue_loop (n + m) c = then_run (cancelQueue_loop n c) (cancelQueue_loop m)"
proof (induction n arbitrary: c)
  case 0
  show ?case by (simp add: then_run_def)
next
  case (Suc n)
  show ?case
  proof (cases "readQueue c")
    case Nil
    then show ?thesis by (simp add: then_run_def)
  next
    case (Cons ch rest)
    then show ?thesis
      by (cases ch) (simp_all add: then_run_def Suc.IH)
  qed
qed

lemma map_of_nil_sent:
  "k \<in> set ks \<Longrightarrow> map_of (map (\<lambda>k. (ReqReceive k, None)) ks) (ReqReceive k) = Some None"
  by (induction ks) auto

lemma received_nil:
  assumes "received_on c (ReqReceive k) = None" "k \<in> set ks"
    and "sent c' = sent c @ map (\<lambda>k. (ReqReceive k, None)) ks"
  shows "received_on c' (ReqReceive k) = Some None"
  using assms by (simp add: received_on_def map_add_def map_of_nil_sent)

lemma submit_read_nil:
  assumes "received_on c (receive req) = None" "receive req = ReqReceive k" "k \<in> set ks"
    and "sent c' = sent c @ map (\<lambda>k. (ReqReceive k, None)) ks"
  shows "submit_read c' req None = Inr (Inl errConnLost)"
  using received_nil [of c k ks c'] assms by (simp add: submit_read_def)

text \<open>The rounds of \<open>onReceiveError\<close> that take a channel from the queue.\<close>

lemma onReceiveError_rounds:
  "n \<le> length (readQueue c) \<Longrightarrow>
   onReceiveError c (replicate n Err_readQueue @ rs)
     = onReceiveError
         (c\<lparr>readQueue := drop n (readQueue c),
            sent := sent c @ map (\<lambda>ch. (ch, None)) (take n (readQueue c))\<rparr>) rs"
proof (induction n arbitrary: c)
  case 0
  then show ?case by simp
next
  case (Suc n)
  then obtain ch rest where q: "readQueue c = ch # rest" by (cases "readQueue c") auto
  let ?c1 = "c\<lparr>readQueue := rest, sent := sent c @ [(ch, None)]\<rparr>"
  have "onReceiveError c (replicate (Suc n) Err_readQueue @ rs)
      = onReceiveError ?c1 (replicate n Err_readQueue @ rs)"
    by (simp add: q)
  also have "\<dots> = onReceiveError
         (?c1\<lparr>readQueue := drop n (readQueue ?c1),
            sent := sent ?c1 @ map (\<lambda>ch. (ch, None)) (take n (readQueue ?c1))\<rparr>) rs"
    using Suc.prems q by (intro Suc.IH) simp
  finally show ?case by (simp add: q)
qed

lemma onReceiveError_sends_nil:
  "onReceiveError c rs = Inr c' \<Longrightarrow>
   sent c' = sent c @ map (\<lambda>ch. (ch, None))
       (take (length (takeWhile (\<lambda>s. s = Err_readQueue) rs)) (readQueue c))
   \<and> readQueue c' = drop (length (takeWhile (\<lambda>s. s = Err_readQueue) rs)) (readQueue c)"
proof (induction c rs rule: onReceiveError.induct)
  case (1 c)
  then show ?case by simp
next
  case (2 c rs)
  then show ?case by simp
next
  case (3 c rs)
  show ?case
  proof (cases "readQueue c")
    case Nil
    with 3 show ?thesis by simp
  next
    case (Cons ch rest)
    let ?c1 = "c\<lparr>readQueue := rest, sent := sent c @ [(ch, None)]\<rparr>"
    from 3(2) Cons have "onReceiveError ?c1 rs = Inr c'" by simp
    from 3(1) [OF Cons this] show ?thesis
      using Cons by simp
  qed
next
  case (4 c halted rs)
  then show ?case by (auto split: option.splits if_splits)
qed

subsection \<open>pass\<close>

lemma pass_switch_fatal: "pass_switch err = Path_onReceiveError \<longleftrightarrow> fatal_spec err"
proof (cases err)
  case None
  then show ?thesis by (simp add: pass_switch_def)
next
  case (Some e)
  then show ?thesis by (cases e) (simp_all add: pass_switch_def)
qed

lemma pass_handoff_cases:
  assumes "pass_handoff c r ps = Inr c'"
  shows "(\<exists>next. readQueue c' = tl (readQueue c) \<and> sent c' = sent c @ [(next, Some r)]
            \<and> connSem c' = connSem c)
         \<or> (\<exists>conn. connSem c = Some conn \<and> readQueue c = []
              \<and> c' = c\<lparr>connSem := Some (conn\<lparr>idle := Some r\<rparr>)\<rparr>)
         \<or> c' = c"
  using assms
  by (auto simp: pass_handoff_def split: list.splits pass_select.splits option.splits)

lemma pass_handoff_keeps:
  assumes "pass_handoff c r ps = Inr c'"
  shows "closed c' = closed c \<and> goroutines c' = goroutines c
         \<and> map_option Conn (connSem c') = map_option Conn (connSem c)
         \<and> map_option offline (connSem c') = map_option offline (connSem c)
         \<and> (\<forall>m \<in> set (sent c'). m \<in> set (sent c) \<or> snd m = Some r)"
  using assms
  by (auto simp: pass_handoff_def split: list.splits pass_select.splits option.splits)

text \<open>
  Claim C5. For every decode outcome \<open>err\<close>, \<open>pass\<close> takes the error path,
  \<open>onReceiveError\<close>, if and only if \<open>err\<close> is fatal: neither nil, nor the null reply, nor an
  error reply of the server. Otherwise it runs the handoff, and when it returns the reader
  went to a channel of the queue, or into the idle state of the token, or a halt was
  accepted and nothing changed; no socket is closed, no goroutine is started, no nil is
  sent, and the socket and the offline reason of the token stay as they were.
\<close>

theorem pass_routing:
  "(pass_switch err = Path_onReceiveError \<longleftrightarrow> fatal_spec err)
   \<and> (fatal_spec err \<longrightarrow>
        pass c r err ps rs = then_run (onReceiveError c rs) (\<lambda>c. Inr (Path_onReceiveError, c)))
   \<and> (\<not> fatal_spec err \<longrightarrow>
        pass c r err ps rs = then_run (pass_handoff c r ps) (\<lambda>c. Inr (Path_handoff, c)))
   \<and> (\<forall>path c'. pass c r err ps rs = Inr (path, c') \<longrightarrow>
        (path = Path_onReceiveError \<longleftrightarrow> fatal_spec err))
   \<and> (\<forall>path c'. \<not> fatal_spec err \<and> pass c r err ps rs = Inr (path, c') \<longrightarrow>
        closed c' = closed c \<and> goroutines c' = goroutines c
        \<and> map_option Conn (connSem c') = map_option Conn (connSem c)
        \<and> map_option offline (connSem c') = map_option offline (connSem c)
        \<and> (\<forall>m \<in> set (sent c'). m \<in> set (sent c) \<or> snd m = Some r)
        \<and> ((\<exists>next. readQueue c' = tl (readQueue c) \<and> sent c' = sent c @ [(next, Some r)]
               \<and> connSem c' = connSem c)
           \<or> (\<exists>conn. connSem c = Some conn \<and> readQueue c = []
                \<and> c' = c\<lparr>connSem := Some (conn\<lparr>idle := Some r\<rparr>)\<rparr>)
           \<or> c' = c))"
proof -
  have sw: "pass_switch err = Path_onReceiveError \<longleftrightarrow> fatal_spec err"
    by (rule pass_switch_fatal)
  have err: "pass c r err ps rs = then_run (onReceiveError c rs) (\<lambda>c. Inr (Path_onReceiveError, c))"
    if "fatal_spec err"
    using that sw by (simp add: pass_def)
  have ok: "pass c r err ps rs = then_run (pass_handoff c r ps) (\<lambda>c. Inr (Path_handoff, c))"
    if "\<not> fatal_spec err"
  proof -
    from that sw have "pass_switch err = Path_handoff"
      by (cases "pass_switch err") simp_all
    then show ?thesis by (simp add: pass_def)
  qed
  have path: "path = Path_onReceiveError \<longleftrightarrow> fatal_spec err"
    if "pass c r err ps rs = Inr (path, c')" for path c'
  proof (cases "fatal_spec err")
    case True
    with that err show ?thesis by (auto simp: then_run_def split: sum.splits)
  next
    case False
    with that ok show ?thesis by (auto simp: then_run_def split: sum.splits)
  qed
  have effect: "closed c' = closed c \<and> goroutines c' = goroutines c
        \<and> map_option Conn (connSem c') = map_option Conn (connSem c)
        \<and> map_option offline (connSem c') = map_option offline (connSem c)
        \<and> (\<forall>m \<in> set (sent c'). m \<in> set (sent c) \<or> snd m = Some r)
        \<and> ((\<exists>next. readQueue c' = tl (readQueue c) \<and> sent c' = sent c @ [(next, Some r)]
               \<and> connSem c' = connSem c)
           \<or> (\<exists>conn. connSem c = Some conn \<and> readQueue c = []
                \<and> c' = c\<lparr>connSem := Some (conn\<lparr>idle := Some r\<rparr>)\<rparr>)
           \<or> c' = c)"
    if "\<not> fatal_spec err" "pass c r err ps rs = Inr (path, c')" for path c'
  proof -
    from that ok have h: "pass_handoff c r ps = Inr c'"
      by (auto simp: then_run_def split: sum.splits)
    from pass_handoff_keeps [OF h] pass_handoff_cases [OF h] show ?thesis
      by blast
  qed
  from sw err ok path effect show ?thesis by blast
qed

theorem pass_routing_witness:
  "fatal_spec (Some errProtocol)
   \<and> pass (NewClient '''' 0 0\<lparr>readQueue := [ReqReceive 1]\<rparr>) (NewReaderSize 3 1208)
        (Some errProtocol) Pass_readInterrupt [Err_readInterrupt]
      = Inr (Path_onReceiveError, NewClient '''' 0 0\<lparr>readQueue := [ReqReceive 1]\<rparr>)
   \<and> \<not> fatal_spec (Some (ServerError ''ERR''))
   \<and> pass (NewClient '''' 0 0\<lparr>readQueue := [ReqReceive 1]\<rparr>) (NewReaderSize 3 1208)
        (Some (ServerError ''ERR'')) Pass_readInterrupt []
      = Inr (Path_handoff, NewClient '''' 0 0
          \<lparr>readQueue := [], sent := [(ReqReceive 1, Some (NewReaderSize 3 1208))]\<rparr>)"
proof -
  let ?c = "NewClient '''' 0 0\<lparr>readQueue := [ReqReceive 1]\<rparr>"
  let ?r = "NewReaderSize 3 1208"
  have f: "fatal_spec (Some errProtocol)" by simp
  have n: "\<not> fatal_spec (Some (ServerError ''ERR''))" by simp
  have 1: "pass ?c ?r (Some errProtocol) Pass_readInterrupt [Err_readInterrupt]
      = then_run (onReceiveError ?c [Err_readInterrupt]) (\<lambda>c. Inr (Path_onReceiveError, c))"
    using pass_routing [of "Some errProtocol" ?c ?r Pass_readInterrupt "[Err_readInterrupt]"] f
    by blast
  have 2: "pass ?c ?r (Some (ServerError ''ERR'')) Pass_readInterrupt []
      = then_run (pass_handoff ?c ?r Pass_readInterrupt) (\<lambda>c. Inr (Path_handoff, c))"
    using pass_routing [of "Some (ServerError ''ERR'')" ?c ?r Pass_readInterrupt "[]"] n
    by blast
  show ?thesis
    unfolding 1 2 using f n
    by (simp add: then_run_def pass_handoff_def NewClient_fields)
qed

subsection \<open>The paths of a lost connection\<close>

lemma map_nil_take:
  "map (\<lambda>ch. (ch, None)) (take n (map ReqReceive ks))
     = map (\<lambda>k. (ReqReceive k, None)) (take n ks)"
  by (simp add: take_map)

lemma read_failure_path:
  assumes "connSem c = Some conn" "offline conn = None" "Conn conn = Some h"
    and "readQueue c = map ReqReceive ks" and "fatal_spec err" and "n \<le> length ks"
  shows "\<exists>c1 c2.
      pass c r err ps (replicate n Err_readQueue @ Err_connSem halted # rs)
        = Inr (Path_onReceiveError, c1)
      \<and> sent c1 = sent c @ map (\<lambda>k. (ReqReceive k, None)) (take n ks)
      \<and> readQueue c1 = map ReqReceive (drop n ks)
      \<and> connSem c1 = None
      \<and> goroutines c1 = goroutines c @ [Go_receive_failed conn]
      \<and> receive_failed c1 conn = Inr c2
      \<and> sent c2 = sent c @ map (\<lambda>k. (ReqReceive k, None)) ks
      \<and> readQueue c2 = []
      \<and> closed c2 = closed c @ [h]"
proof -
  let ?cn = "c\<lparr>readQueue := drop n (readQueue c),
      sent := sent c @ map (\<lambda>ch. (ch, None)) (take n (readQueue c))\<rparr>"
  let ?c1 = "?cn\<lparr>connSem := None, goroutines := goroutines ?cn @ [Go_receive_failed conn]\<rparr>"
  let ?c1' = "?c1\<lparr>closed := closed ?c1 @ [h]\<rparr>"
  let ?c2 = "finished (Go_receive_failed conn) [Go_connect True]
      (?c1'\<lparr>readQueue := [], sent := sent ?c1' @ map (\<lambda>k. (ReqReceive k, None)) (drop n ks)\<rparr>)"
  have sw: "pass_switch err = Path_onReceiveError"
    using assms(5) by (simp add: pass_switch_fatal)
  have "onReceiveError c (replicate n Err_readQueue @ Err_connSem halted # rs)
      = onReceiveError ?cn (Err_connSem halted # rs)"
    using assms(4,6) by (intro onReceiveError_rounds) simp
  also have "\<dots> = Inr ?c1"
    using assms(1,2) by simp
  finally have p: "pass c r err ps (replicate n Err_readQueue @ Err_connSem halted # rs)
      = Inr (Path_onReceiveError, ?c1)"
    by (simp add: pass_def sw then_run_def)
  have q: "readQueue ?c1' = map ReqReceive (drop n ks)"
    by (simp add: assms(4) drop_map)
  have r: "receive_failed ?c1 conn = Inr ?c2"
    unfolding receive_failed_def assms(3) option.case cancelQueue_requests [OF q]
      then_run_def sum.case
    by (rule refl)
  have s1: "sent ?c1 = sent c @ map (\<lambda>k. (ReqReceive k, None)) (take n ks)"
    by (simp add: assms(4) map_nil_take)
  have "map (\<lambda>k. (ReqReceive k, None)) (take n ks) @ map (\<lambda>k. (ReqReceive k, None)) (drop n ks)
      = map (\<lambda>k. (ReqReceive k, None)) ks"
    by (simp flip: map_append)
  then have s2: "sent ?c2 = sent c @ map (\<lambda>k. (ReqReceive k, None)) ks"
    by (simp add: finished_def assms(4) map_nil_take)
  show ?thesis
    using p r s1 s2
    by (intro exI [of _ ?c1] exI [of _ ?c2]) (simp add: finished_def assms(4) drop_map)
qed

lemma write_failure_path:
  assumes "connSem c = Some conn" "offline conn = None" "Conn conn = Some h"
    and "readQueue c = map ReqReceive ks" and "idle conn \<noteq> None \<or> hs = Halt_readInterrupt"
  shows "\<exists>c1 c2.
      submit_write c req (Some e) = Inr (Inl e, c1)
      \<and> sent c1 = sent c
      \<and> readQueue c1 = readQueue c
      \<and> connSem c1 = None
      \<and> goroutines c1 = goroutines c @ [Go_submit_failed conn]
      \<and> submit_failed c1 conn readHandover hs = Inr c2
      \<and> sent c2 = sent c @ map (\<lambda>k. (ReqReceive k, None)) ks
      \<and> readQueue c2 = []
      \<and> closed c2 = closed c @ [h]"
proof -
  let ?c1 = "c\<lparr>connSem := None, goroutines := goroutines c @ [Go_submit_failed conn]\<rparr>"
  let ?c2 = "finished (Go_submit_failed conn) [Go_connect True]
      (?c1\<lparr>readQueue := [], sent := sent ?c1 @ map (\<lambda>k. (ReqReceive k, None)) ks,
            closed := closed ?c1 @ [h]\<rparr>)"
  have w: "submit_write c req (Some e) = Inr (Inl e, ?c1)"
    using assms(1,2,3) by (simp add: submit_write_def)
  have h: "haltReceive ?c1 conn readHandover hs = Inr (Halted ?c1)"
    using assms(5) by (auto simp: haltReceive_def)
  have q: "readQueue ?c1 = map ReqReceive ks"
    by (simp add: assms(4))
  have f: "submit_failed ?c1 conn readHandover hs = Inr ?c2"
    unfolding submit_failed_def h then_run_def sum.case halting.case submit_failed_teardown_def
      cancelQueue_requests [OF q] assms(3) option.case
    by simp
  show ?thesis
    using w f by (intro exI [of _ ?c1] exI [of _ ?c2]) (simp add: finished_def)
qed

lemma write_failure_handover:
  assumes "connSem c = Some conn" "offline conn = None" "Conn conn = Some h"
    and "idle conn = None" "length (readQueue c) < readQueue_cap c"
  shows "\<exists>c1 c2.
      submit_write c req (Some e) = Inr (Inl e, c1)
      \<and> submit_failed c1 conn readHandover Halt_readQueue = Inr c2
      \<and> sent c2 = sent c
      \<and> readQueue c2 = readQueue c @ [readHandover]
      \<and> connSem c2 = None
      \<and> closed c2 = closed c
      \<and> goroutines c2
          = remove1 (Go_submit_failed conn) (goroutines c @ [Go_submit_failed conn])
            @ [Go_submit_failed_handover conn readHandover]"
proof -
  let ?c1 = "c\<lparr>connSem := None, goroutines := goroutines c @ [Go_submit_failed conn]\<rparr>"
  let ?c2 = "finished (Go_submit_failed conn) [Go_submit_failed_handover conn readHandover]
      (?c1\<lparr>readQueue := readQueue ?c1 @ [readHandover]\<rparr>)"
  have w: "submit_write c req (Some e) = Inr (Inl e, ?c1)"
    using assms(1,2,3) by (simp add: submit_write_def)
  have h: "haltReceive ?c1 conn readHandover Halt_readQueue
      = Inr (Handover (?c1\<lparr>readQueue := readQueue ?c1 @ [readHandover]\<rparr>))"
    using assms(2,4,5) by (simp add: haltReceive_def)
  have f: "submit_failed ?c1 conn readHandover Halt_readQueue = Inr ?c2"
    unfolding submit_failed_def h then_run_def sum.case halting.case
    by (rule refl)
  show ?thesis
    using w f by (intro exI [of _ ?c1] exI [of _ ?c2]) (simp add: finished_def)
qed

lemma handover_path:
  assumes "received_on c readHandover = Some v" "readQueue c = map ReqReceive ks"
    and "Conn conn = Some h"
  shows "\<exists>c2.
      submit_failed_handover c conn readHandover Handover_readHandover = Inr c2
      \<and> sent c2 = sent c @ map (\<lambda>k. (ReqReceive k, None)) ks
      \<and> readQueue c2 = []
      \<and> closed c2 = closed c @ [h]"
proof -
  let ?c2 = "finished (Go_submit_failed_handover conn readHandover) [Go_connect True]
      (c\<lparr>readQueue := [], sent := sent c @ map (\<lambda>k. (ReqReceive k, None)) ks,
         closed := closed c @ [h]\<rparr>)"
  have "submit_failed_handover c conn readHandover Handover_readHandover = Inr ?c2"
    unfolding submit_failed_handover_def haltReceive_handover_def handover_select.case
      assms(1,3) option.case then_run_def sum.case submit_failed_teardown_def
      cancelQueue_requests [OF assms(2)]
    by simp
  then show ?thesis
    by (intro exI [of _ ?c2]) (simp add: finished_def)
qed

text \<open>
  Claim C4, as amended. When the connection is lost while \<open>K\<close> commands are queued, every
  waiter that is still in the queue when it is drained receives nil, and a \<open>submit\<close> call
  that receives nil from its channel returns \<open>errConnLost\<close>, not a reader. With the token
  online in the semaphore and the channels of \<open>K\<close> requests in the queue:
  \<^item> after a read that fails with a fatal error, \<open>pass\<close> runs \<open>onReceiveError\<close>, which sends
    nil on the \<open>n\<close> channels it takes from the queue, keeps the token and starts the
    goroutine \<open>receive_failed\<close>, whose \<open>cancelQueue\<close> sends nil on the others: all \<open>K\<close>
    waiters receive nil;
  \<^item> after a write that fails, \<open>submit\<close> keeps the token and starts the goroutine
    \<open>submit_failed\<close>; with no read routine under way, or when that routine accepts the
    interrupt at once, its \<open>cancelQueue\<close> sends nil to all \<open>K\<close> waiters; with a read routine
    under way and room in the queue, the goroutine can put \<open>readHandover\<close> last in the
    queue and wait there, and no waiter has received anything yet.
  When the goroutine of \<open>submit\<close> went through \<open>readHandover\<close> and a value has arrived there,
  its \<open>cancelQueue\<close> sends nil to the waiters in the queue by then. And in any state,
  \<open>onReceiveError\<close> sends nil on the channels it takes from the queue, one for each round
  of \<open>Err_readQueue\<close>, and nothing else.
\<close>

theorem lost_connection_delivers_nil:
  assumes "connSem c = Some conn" and "offline conn = None" and "Conn conn = Some h"
    and "readQueue c = map ReqReceive ks"
  shows
    "(\<forall>r err ps n halted rs. fatal_spec err \<and> n \<le> length ks \<longrightarrow>
       (\<exists>c1 c2.
          pass c r err ps (replicate n Err_readQueue @ Err_connSem halted # rs)
            = Inr (Path_onReceiveError, c1)
          \<and> sent c1 = sent c @ map (\<lambda>k. (ReqReceive k, None)) (take n ks)
          \<and> readQueue c1 = map ReqReceive (drop n ks)
          \<and> connSem c1 = None
          \<and> goroutines c1 = goroutines c @ [Go_receive_failed conn]
          \<and> receive_failed c1 conn = Inr c2
          \<and> sent c2 = sent c @ map (\<lambda>k. (ReqReceive k, None)) ks
          \<and> readQueue c2 = []
          \<and> closed c2 = closed c @ [h]
          \<and> (\<forall>req k. k \<in> set ks \<and> receive req = ReqReceive k
                 \<and> received_on c (receive req) = None
               \<longrightarrow> submit_read c2 req None = Inr (Inl errConnLost))))
     \<and> (\<forall>req e readHandover hs. idle conn \<noteq> None \<or> hs = Halt_readInterrupt \<longrightarrow>
       (\<exists>c1 c2.
          submit_write c req (Some e) = Inr (Inl e, c1)
          \<and> sent c1 = sent c
          \<and> readQueue c1 = readQueue c
          \<and> connSem c1 = None
          \<and> goroutines c1 = goroutines c @ [Go_submit_failed conn]
          \<and> submit_failed c1 conn readHandover hs = Inr c2
          \<and> sent c2 = sent c @ map (\<lambda>k. (ReqReceive k, None)) ks
          \<and> readQueue c2 = []
          \<and> closed c2 = closed c @ [h]
          \<and> (\<forall>req k. k \<in> set ks \<and> receive req = ReqReceive k
                 \<and> received_on c (receive req) = None
               \<longrightarrow> submit_read c2 req None = Inr (Inl errConnLost))))
     \<and> (\<forall>req e readHandover.
          idle conn = None \<and> length (readQueue c) < readQueue_cap c \<longrightarrow>
       (\<exists>c1 c2.
          submit_write c req (Some e) = Inr (Inl e, c1)
          \<and> submit_failed c1 conn readHandover Halt_readQueue = Inr c2
          \<and> sent c2 = sent c
          \<and> readQueue c2 = readQueue c @ [readHandover]
          \<and> connSem c2 = None
          \<and> closed c2 = closed c
          \<and> goroutines c2
              = remove1 (Go_submit_failed conn) (goroutines c @ [Go_submit_failed conn])
                @ [Go_submit_failed_handover conn readHandover]))
     \<and> (\<forall>c0 (conn0 :: redisConn) h0 readHandover v ks0.
          received_on c0 readHandover = Some v \<and> readQueue c0 = map ReqReceive ks0
          \<and> Conn conn0 = Some h0 \<longrightarrow>
       (\<exists>c2.
          submit_failed_handover c0 conn0 readHandover Handover_readHandover = Inr c2
          \<and> sent c2 = sent c0 @ map (\<lambda>k. (ReqReceive k, None)) ks0
          \<and> readQueue c2 = []
          \<and> closed c2 = closed c0 @ [h0]
          \<and> (\<forall>req k. k \<in> set ks0 \<and> receive req = ReqReceive k
                 \<and> received_on c0 (receive req) = None
               \<longrightarrow> submit_read c2 req None = Inr (Inl errConnLost))))
     \<and> (\<forall>c0 rs c'. onReceiveError c0 rs = Inr c' \<longrightarrow>
          sent c' = sent c0 @ map (\<lambda>ch. (ch, None))
              (take (length (takeWhile (\<lambda>s. s = Err_readQueue) rs)) (readQueue c0))
          \<and> readQueue c' = drop (length (takeWhile (\<lambda>s. s = Err_readQueue) rs)) (readQueue c0))"
proof (intro conjI allI impI)
  fix r err ps n halted rs
  assume "fatal_spec err \<and> n \<le> length ks"
  then have f: "fatal_spec err" and n: "n \<le> length ks" by simp_all
  from read_failure_path [OF assms f n, of r ps halted rs] obtain c1 c2 where
    p: "pass c r err ps (replicate n Err_readQueue @ Err_connSem halted # rs)
        = Inr (Path_onReceiveError, c1)"
      "sent c1 = sent c @ map (\<lambda>k. (ReqReceive k, None)) (take n ks)"
      "readQueue c1 = map ReqReceive (drop n ks)"
      "connSem c1 = None"
      "goroutines c1 = goroutines c @ [Go_receive_failed conn]"
      "receive_failed c1 conn = Inr c2"
      "sent c2 = sent c @ map (\<lambda>k. (ReqReceive k, None)) ks"
      "readQueue c2 = []"
      "closed c2 = closed c @ [h]"
    by blast
  have "submit_read c2 req None = Inr (Inl errConnLost)"
    if "k \<in> set ks \<and> receive req = ReqReceive k \<and> received_on c (receive req) = None"
    for req k
    using that submit_read_nil [OF _ _ _ p(7)] by blast
  with p show "\<exists>c1 c2.
          pass c r err ps (replicate n Err_readQueue @ Err_connSem halted # rs)
            = Inr (Path_onReceiveError, c1)
          \<and> sent c1 = sent c @ map (\<lambda>k. (ReqReceive k, None)) (take n ks)
          \<and> readQueue c1 = map ReqReceive (drop n ks)
          \<and> connSem c1 = None
          \<and> goroutines c1 = goroutines c @ [Go_receive_failed conn]
          \<and> receive_failed c1 conn = Inr c2
          \<and> sent c2 = sent c @ map (\<lambda>k. (ReqReceive k, None)) ks
          \<and> readQueue c2 = []
          \<and> closed c2 = closed c @ [h]
          \<and> (\<forall>req k. k \<in> set ks \<and> receive req = ReqReceive k
                 \<and> received_on c (receive req) = None
               \<longrightarrow> submit_read c2 req None = Inr (Inl errConnLost))"
    by blast
next
  fix req e readHandover hs
  assume hs: "idle conn \<noteq> None \<or> hs = Halt_readInterrupt"
  from write_failure_path [OF assms hs, of req e readHandover] obtain c1 c2 where
    p: "submit_write c req (Some e) = Inr (Inl e, c1)"
      "sent c1 = sent c"
      "readQueue c1 = readQueue c"
      "connSem c1 = None"
      "goroutines c1 = goroutines c @ [Go_submit_failed conn]"
      "submit_failed c1 conn readHandover hs = Inr c2"
      "sent c2 = sent c @ map (\<lambda>k. (ReqReceive k, None)) ks"
      "readQueue c2 = []"
      "closed c2 = closed c @ [h]"
    by blast
  have "submit_read c2 req' None = Inr (Inl errConnLost)"
    if "k \<in> set ks \<and> receive req' = ReqReceive k \<and> received_on c (receive req') = None"
    for req' k
    using that submit_read_nil [OF _ _ _ p(7)] by blast
  with p show "\<exists>c1 c2.
          submit_write c req (Some e) = Inr (Inl e, c1)
          \<and> sent c1 = sent c
          \<and> readQueue c1 = readQueue c
          \<and> connSem c1 = None
          \<and> goroutines c1 = goroutines c @ [Go_submit_failed conn]
          \<and> submit_failed c1 conn readHandover hs = Inr c2
          \<and> sent c2 = sent c @ map (\<lambda>k. (ReqReceive k, None)) ks
          \<and> readQueue c2 = []
          \<and> closed c2 = closed c @ [h]
          \<and> (\<forall>req k. k \<in> set ks \<and> receive req = ReqReceive k
                 \<and> received_on c (receive req) = None
               \<longrightarrow> submit_read c2 req None = Inr (Inl errConnLost))"
    by blast
next
  fix req e readHandover
  assume "idle conn = None \<and> length (readQueue c) < readQueue_cap c"
  then have i: "idle conn = None" "length (readQueue c) < readQueue_cap c"
    by simp_all
  from write_failure_handover [OF assms(1,2,3) i, of req e readHandover]
  show "\<exists>c1 c2.
          submit_write c req (Some e) = Inr (Inl e, c1)
          \<and> submit_failed c1 conn readHandover Halt_readQueue = Inr c2
          \<and> sent c2 = sent c
          \<and> readQueue c2 = readQueue c @ [readHandover]
          \<and> connSem c2 = None
          \<and> closed c2 = closed c
          \<and> goroutines c2
              = remove1 (Go_submit_failed conn) (goroutines c @ [Go_submit_failed conn])
                @ [Go_submit_failed_handover conn readHandover]" .
next
  fix c0 and conn0 :: redisConn and h0 readHandover v ks0
  assume "received_on c0 readHandover = Some v \<and> readQueue c0 = map ReqReceive ks0
          \<and> Conn conn0 = Some h0"
  then have a: "received_on c0 readHandover = Some v" "readQueue c0 = map ReqReceive ks0"
    "Conn conn0 = Some h0"
    by simp_all
  from handover_path [OF a] obtain c2 where
    p: "submit_failed_handover c0 conn0 readHandover Handover_readHandover = Inr c2"
      "sent c2 = sent c0 @ map (\<lambda>k. (ReqReceive k, None)) ks0"
      "readQueue c2 = []"
      "closed c2 = closed c0 @ [h0]"
    by blast
  have "submit_read c2 req None = Inr (Inl errConnLost)"
    if "k \<in> set ks0 \<and> receive req = ReqReceive k \<and> received_on c0 (receive req) = None"
    for req k
    using that submit_read_nil [OF _ _ _ p(2)] by blast
  with p show "\<exists>c2.
          submit_failed_handover c0 conn0 readHandover Handover_readHandover = Inr c2
          \<and> sent c2 = sent c0 @ map (\<lambda>k. (ReqReceive k, None)) ks0
          \<and> readQueue c2 = []
          \<and> closed c2 = closed c0 @ [h0]
          \<and> (\<forall>req k. k \<in> set ks0 \<and> receive req = ReqReceive k
                 \<and> received_on c0 (receive req) = None
               \<longrightarrow> submit_read c2 req None = Inr (Inl errConnLost))"
    by blast
next
  fix c0 rs c'
  assume "onReceiveError c0 rs = Inr c'"
  from onReceiveError_sends_nil [OF this]
  show "sent c' = sent c0 @ map (\<lambda>ch. (ch, None))
              (take (length (takeWhile (\<lambda>s. s = Err_readQueue) rs)) (readQueue c0))"
    and "readQueue c' = drop (length (takeWhile (\<lambda>s. s = Err_readQueue) rs)) (readQueue c0)"
    by simp_all
qed

theorem lost_connection_delivers_nil_witness:
  "connSem (NewClient '''' 0 0
       \<lparr>connSem := Some \<lparr>Conn = Some 7, offline = None, idle = None\<rparr>,
        readQueue := [ReqReceive 1, ReqReceive 2], goroutines := []\<rparr>)
     = Some \<lparr>Conn = Some 7, offline = None, idle = None\<rparr>
   \<and> readQueue (NewClient '''' 0 0
       \<lparr>connSem := Some \<lparr>Conn = Some 7, offline = None, idle = None\<rparr>,
        readQueue := [ReqReceive 1, ReqReceive 2], goroutines := []\<rparr>)
     = map ReqReceive [1, 2]
   \<and> fatal_spec (Some errProtocol)
   \<and> (\<exists>c1 c2.
        pass (NewClient '''' 0 0
            \<lparr>connSem := Some \<lparr>Conn = Some 7, offline = None, idle = None\<rparr>,
             readQueue := [ReqReceive 1, ReqReceive 2], goroutines := []\<rparr>)
          (NewReaderSize 7 conservativeMSS) (Some errProtocol) Pass_readInterrupt
          [Err_readQueue, Err_connSem False]
          = Inr (Path_onReceiveError, c1)
        \<and> sent c1 = [(ReqReceive 1, None)]
        \<and> readQueue c1 = [ReqReceive 2]
        \<and> receive_failed c1 \<lparr>Conn = Some 7, offline = None, idle = None\<rparr> = Inr c2
        \<and> sent c2 = [(ReqReceive 1, None), (ReqReceive 2, None)]
        \<and> readQueue c2 = []
        \<and> closed c2 = [7]
        \<and> submit_read c2 \<lparr>buf = [], receive = ReqReceive 1\<rparr> None = Inr (Inl errConnLost)
        \<and> submit_read c2 \<lparr>buf = [], receive = ReqReceive 2\<rparr> None = Inr (Inl errConnLost))
   \<and> (\<exists>c1 c2.
        submit_write (NewClient '''' 0 0
            \<lparr>connSem := Some \<lparr>Conn = Some 7, offline = None, idle = None\<rparr>,
             readQueue := [ReqReceive 1, ReqReceive 2], goroutines := []\<rparr>)
          \<lparr>buf = [], receive = ReqReceive 3\<rparr> (Some (NetError ''write''))
          = Inr (Inl (NetError ''write''), c1)
        \<and> submit_failed c1 \<lparr>Conn = Some 7, offline = None, idle = None\<rparr>
            (ReadHandover 0) Halt_readInterrupt = Inr c2
        \<and> sent c2 = [(ReqReceive 1, None), (ReqReceive 2, None)]
        \<and> readQueue c2 = []
        \<and> closed c2 = [7]
        \<and> submit_read c2 \<lparr>buf = [], receive = ReqReceive 1\<rparr> None = Inr (Inl errConnLost)
        \<and> submit_read c2 \<lparr>buf = [], receive = ReqReceive 2\<rparr> None = Inr (Inl errConnLost))"
proof -
  let ?t = "\<lparr>Conn = Some 7, offline = None, idle = None\<rparr> :: redisConn"
  let ?c = "NewClient '''' 0 0
       \<lparr>connSem := Some ?t, readQueue := [ReqReceive 1, ReqReceive 2], goroutines := []\<rparr>"
  let ?req1 = "\<lparr>buf = [], receive = ReqReceive 1\<rparr>"
  let ?req2 = "\<lparr>buf = [], receive = ReqReceive 2\<rparr>"
  have a: "connSem ?c = Some ?t" "offline ?t = None" "Conn ?t = Some 7"
    "readQueue ?c = map ReqReceive [1, 2]"
    by simp_all
  have f: "fatal_spec (Some errProtocol)" by simp
  have p1: "fatal_spec (Some errProtocol) \<and> (1::nat) \<le> length [1::nat, 2]" by simp
  have p2: "idle ?t \<noteq> None \<or> Halt_readInterrupt = Halt_readInterrupt" by simp
  have fresh: "received_on ?c (receive ?req1) = None" "received_on ?c (receive ?req2) = None"
    by (simp_all add: received_on_def NewClient_fields)
  note all = lost_connection_delivers_nil [OF a]
  note rd = all [THEN conjunct1, THEN spec [of _ "NewReaderSize 7 conservativeMSS"],
      THEN spec [of _ "Some errProtocol"], THEN spec [of _ Pass_readInterrupt],
      THEN spec [of _ 1], THEN spec [of _ False], THEN spec [of _ "[]"], THEN mp, OF p1]
  note wr = all [THEN conjunct2, THEN conjunct1,
      THEN spec [of _ "\<lparr>buf = [], receive = ReqReceive 3\<rparr>"],
      THEN spec [of _ "NetError ''write''"], THEN spec [of _ "ReadHandover 0"],
      THEN spec [of _ Halt_readInterrupt], THEN mp, OF p2]
  from rd obtain c1 c2 where r0:
    "pass ?c (NewReaderSize 7 conservativeMSS) (Some errProtocol) Pass_readInterrupt
       (replicate 1 Err_readQueue @ Err_connSem False # []) = Inr (Path_onReceiveError, c1)"
    "sent c1 = sent ?c @ map (\<lambda>k. (ReqReceive k, None)) (take 1 [1, 2])"
    "readQueue c1 = map ReqReceive (drop 1 [1, 2])"
    "receive_failed c1 ?t = Inr c2"
    "sent c2 = sent ?c @ map (\<lambda>k. (ReqReceive k, None)) [1, 2]"
    "readQueue c2 = []"
    "closed c2 = closed ?c @ [7]"
    "\<forall>req k. k \<in> set [1, 2] \<and> receive req = ReqReceive k
        \<and> received_on ?c (receive req) = None
      \<longrightarrow> submit_read c2 req None = Inr (Inl errConnLost)"
    by blast
  have r: "pass ?c (NewReaderSize 7 conservativeMSS) (Some errProtocol) Pass_readInterrupt
       [Err_readQueue, Err_connSem False] = Inr (Path_onReceiveError, c1)"
    "sent c1 = [(ReqReceive 1, None)]" "readQueue c1 = [ReqReceive 2]"
    "sent c2 = [(ReqReceive 1, None), (ReqReceive 2, None)]"
    "closed c2 = [7]"
    using r0(1,2,3,5,7) by (simp_all add: NewClient_fields)
  have r1: "submit_read c2 ?req1 None = Inr (Inl errConnLost)"
    using r0(8) [THEN spec [of _ ?req1], THEN spec [of _ 1]] fresh(1) by simp
  have r2: "submit_read c2 ?req2 None = Inr (Inl errConnLost)"
    using r0(8) [THEN spec [of _ ?req2], THEN spec [of _ 2]] fresh(2) by simp
  from wr obtain d1 d2 where w0:
    "submit_write ?c \<lparr>buf = [], receive = ReqReceive 3\<rparr> (Some (NetError ''write''))
       = Inr (Inl (NetError ''write''), d1)"
    "submit_failed d1 ?t (ReadHandover 0) Halt_readInterrupt = Inr d2"
    "sent d2 = sent ?c @ map (\<lambda>k. (ReqReceive k, None)) [1, 2]"
    "readQueue d2 = []"
    "closed d2 = closed ?c @ [7]"
    "\<forall>req k. k \<in> set [1, 2] \<and> receive req = ReqReceive k
        \<and> received_on ?c (receive req) = None
      \<longrightarrow> submit_read d2 req None = Inr (Inl errConnLost)"
    by blast
  have w: "sent d2 = [(ReqReceive 1, None), (ReqReceive 2, None)]" "closed d2 = [7]"
    using w0(3,5) by (simp_all add: NewClient_fields)
  have w1: "submit_read d2 ?req1 None = Inr (Inl errConnLost)"
    using w0(6) [THEN spec [of _ ?req1], THEN spec [of _ 1]] fresh(1) by simp
  have w2: "submit_read d2 ?req2 None = Inr (Inl errConnLost)"
    using w0(6) [THEN spec [of _ ?req2], THEN spec [of _ 2]] fresh(2) by simp
  have rd_run: "\<exists>c1 c2.
        pass ?c (NewReaderSize 7 conservativeMSS) (Some errProtocol) Pass_readInterrupt
          [Err_readQueue, Err_connSem False]
          = Inr (Path_onReceiveError, c1)
        \<and> sent c1 = [(ReqReceive 1, None)]
        \<and> readQueue c1 = [ReqReceive 2]
        \<and> receive_failed c1 ?t = Inr c2
        \<and> sent c2 = [(ReqReceive 1, None), (ReqReceive 2, None)]
        \<and> readQueue c2 = []
        \<and> closed c2 = [7]
        \<and> submit_read c2 ?req1 None = Inr (Inl errConnLost)
        \<and> submit_read c2 ?req2 None = Inr (Inl errConnLost)"
    using r r0(4,6) r1 r2 by (intro exI conjI)
  have wr_run: "\<exists>c1 c2.
        submit_write ?c \<lparr>buf = [], receive = ReqReceive 3\<rparr> (Some (NetError ''write''))
          = Inr (Inl (NetError ''write''), c1)
        \<and> submit_failed c1 ?t (ReadHandover 0) Halt_readInterrupt = Inr c2
        \<and> sent c2 = [(ReqReceive 1, None), (ReqReceive 2, None)]
        \<and> readQueue c2 = []
        \<and> closed c2 = [7]
        \<and> submit_read c2 ?req1 None = Inr (Inl errConnLost)
        \<and> submit_read c2 ?req2 None = Inr (Inl errConnLost)"
    using w0(1,2,4) w w1 w2 by (intro exI conjI)
  show ?thesis
    using a(1,4) f rd_run wr_run by (intro conjI)
qed

text \<open>
  The claim as it was stated fails after a write that fails with two commands queued and
  a read under way. The run: the first dial succeeds; a first \<open>submit\<close> takes the idle
  reader; two more queue their channels; the write of a fourth fails, which is the loss
  of the connection. The read under way then ends without error and \<open>pass\<close> hands the
  reader to the first waiter: that \<open>submit\<close> call receives the reader, not nil.
\<close>

theorem lost_connection_delivers_nil_counterexample:
  "connect_attempt (NewClient '''' 0 0) True (Dialed 7)
     = Inr (NewClient '''' 0 0
         \<lparr>connSem := Some \<lparr>Conn = Some 7, offline = None,
                            idle = Some (NewReaderSize 7 conservativeMSS)\<rparr>,
          goroutines := []\<rparr>)
   \<and> submit_write
       (NewClient '''' 0 0
         \<lparr>connSem := Some \<lparr>Conn = Some 7, offline = None,
                            idle = Some (NewReaderSize 7 conservativeMSS)\<rparr>,
          goroutines := []\<rparr>)
       \<lparr>buf = [], receive = ReqReceive 0\<rparr> None
     = Inr (Inr (Some (NewReaderSize 7 conservativeMSS)),
         NewClient '''' 0 0
         \<lparr>connSem := Some \<lparr>Conn = Some 7, offline = None, idle = None\<rparr>,
          goroutines := []\<rparr>)
   \<and> submit_write
       (NewClient '''' 0 0
         \<lparr>connSem := Some \<lparr>Conn = Some 7, offline = None, idle = None\<rparr>,
          goroutines := []\<rparr>)
       \<lparr>buf = [], receive = ReqReceive 1\<rparr> None
     = Inr (Inr None,
         NewClient '''' 0 0
         \<lparr>connSem := Some \<lparr>Conn = Some 7, offline = None, idle = None\<rparr>,
          goroutines := [], readQueue := [ReqReceive 1]\<rparr>)
   \<and> submit_write
       (NewClient '''' 0 0
         \<lparr>connSem := Some \<lparr>Conn = Some 7, offline = None, idle = None\<rparr>,
          goroutines := [], readQueue := [ReqReceive 1]\<rparr>)
       \<lparr>buf = [], receive = ReqReceive 2\<rparr> None
     = Inr (Inr None,
         NewClient '''' 0 0
         \<lparr>connSem := Some \<lparr>Conn = Some 7, offline = None, idle = None\<rparr>,
          goroutines := [], readQueue := [ReqReceive 1, ReqReceive 2]\<rparr>)
   \<and> submit_write
       (NewClient '''' 0 0
         \<lparr>connSem := Some \<lparr>Conn = Some 7, offline = None, idle = None\<rparr>,
          goroutines := [], readQueue := [ReqReceive 1, ReqReceive 2]\<rparr>)
       \<lparr>buf = [], receive = ReqReceive 3\<rparr> (Some (NetError ''write''))
     = Inr (Inl (NetError ''write''),
         NewClient '''' 0 0
         \<lparr>connSem := None,
          goroutines := [Go_submit_failed \<lparr>Conn = Some 7, offline = None, idle = None\<rparr>],
          readQueue := [ReqReceive 1, ReqReceive 2]\<rparr>)
   \<and> pass
       (NewClient '''' 0 0
         \<lparr>connSem := None,
          goroutines := [Go_submit_failed \<lparr>Conn = Some 7, offline = None, idle = None\<rparr>],
          readQueue := [ReqReceive 1, ReqReceive 2]\<rparr>)
       (NewReaderSize 7 conservativeMSS) None Pass_readInterrupt []
     = Inr (Path_handoff,
         NewClient '''' 0 0
         \<lparr>connSem := None,
          goroutines := [Go_submit_failed \<lparr>Conn = Some 7, offline = None, idle = None\<rparr>],
          readQueue := [ReqReceive 2],
          sent := [(ReqReceive 1, Some (NewReaderSize 7 conservativeMSS))]\<rparr>)
   \<and> submit_read
       (NewClient '''' 0 0
         \<lparr>connSem := None,
          goroutines := [Go_submit_failed \<lparr>Conn = Some 7, offline = None, idle = None\<rparr>],
          readQueue := [ReqReceive 2],
          sent := [(ReqReceive 1, Some (NewReaderSize 7 conservativeMSS))]\<rparr>)
       \<lparr>buf = [], receive = ReqReceive 1\<rparr> None
     = Inr (Inr (NewReaderSize 7 conservativeMSS))
   \<and> submit_read
       (NewClient '''' 0 0
         \<lparr>connSem := None,
          goroutines := [Go_submit_failed \<lparr>Conn = Some 7, offline = None, idle = None\<rparr>],
          readQueue := [ReqReceive 2],
          sent := [(ReqReceive 1, Some (NewReaderSize 7 conservativeMSS))]\<rparr>)
       \<lparr>buf = [], receive = ReqReceive 1\<rparr> None
     \<noteq> Inr (Inl errConnLost)"
proof -
  have cap: "readQueue_cap (NewClient '''' 0 0) = 128"
    by code_simp
  show ?thesis
    by (simp add: connect_attempt_def finished_def submit_write_def pass_def pass_switch_def
        pass_handoff_def then_run_def submit_read_def received_on_def NewClient_fields cap)
qed

subsection \<open>Close\<close>










text \<open>
  What the amended claim leaves open is a call of \<open>Close\<close> that meets a read routine whose
  read fails. Two runs from a connected client with a command in flight, where the first
  call of \<open>Close\<close> has put \<open>readHandover\<close> in the queue and waits:
  \<^item> \<open>onReceiveError\<close> takes \<open>readHandover\<close> from the queue and sends nil, then takes the
    closed token and waits for an interrupt (line 466); the first call returns, nobody
    sends the interrupt, and a second call waits for the token;
  \<^item> \<open>onReceiveError\<close> accepts the interrupt of the first call, which goes on to
    \<open>cancelQueue\<close>, takes \<open>readHandover\<close> from the queue and waits in the send on it.
\<close>

lemma Close_behind_failed_read:
  "Close (NewClient '''' 0 0
         \<lparr>connSem := Some \<lparr>Conn = Some 7, offline = None, idle = None\<rparr>,
          goroutines := []\<rparr>)
        (ReadHandover 0) Halt_readQueue None
     = Inr (Waiting,
         NewClient '''' 0 0
         \<lparr>connSem := Some \<lparr>Conn = None, offline = Some ErrClosed, idle = None\<rparr>,
          goroutines := [Go_Close_handover \<lparr>Conn = Some 7, offline = None, idle = None\<rparr>
                           (ReadHandover 0)],
          readQueue := [ReadHandover 0]\<rparr>)
   \<and> pass (NewClient '''' 0 0
         \<lparr>connSem := Some \<lparr>Conn = None, offline = Some ErrClosed, idle = None\<rparr>,
          goroutines := [Go_Close_handover \<lparr>Conn = Some 7, offline = None, idle = None\<rparr>
                           (ReadHandover 0)],
          readQueue := [ReadHandover 0]\<rparr>)
        (NewReaderSize 7 conservativeMSS) (Some errProtocol) Pass_readInterrupt
        [Err_readQueue, Err_connSem False]
     = Inl (Blocked (NewClient '''' 0 0
         \<lparr>connSem := None,
          goroutines := [Go_Close_handover \<lparr>Conn = Some 7, offline = None, idle = None\<rparr>
                           (ReadHandover 0)],
          readQueue := [], sent := [(ReadHandover 0, None)]\<rparr>))
   \<and> Close_handover (NewClient '''' 0 0
         \<lparr>connSem := None,
          goroutines := [Go_Close_handover \<lparr>Conn = Some 7, offline = None, idle = None\<rparr>
                           (ReadHandover 0)],
          readQueue := [], sent := [(ReadHandover 0, None)]\<rparr>)
        \<lparr>Conn = Some 7, offline = None, idle = None\<rparr> (ReadHandover 0)
        Handover_readHandover None
     = Inr (Returned None,
         NewClient '''' 0 0
         \<lparr>connSem := None, goroutines := [], readQueue := [],
          sent := [(ReadHandover 0, None)], closed := [7]\<rparr>)
   \<and> Close (NewClient '''' 0 0
         \<lparr>connSem := None, goroutines := [], readQueue := [],
          sent := [(ReadHandover 0, None)], closed := [7]\<rparr>)
        (ReadHandover 1) hs cerr
     = Inl (Blocked (NewClient '''' 0 0
         \<lparr>connSem := None, goroutines := [], readQueue := [],
          sent := [(ReadHandover 0, None)], closed := [7]\<rparr>))"
proof -
  have cap: "readQueue_cap (NewClient '''' 0 0) = 128"
    by code_simp
  show ?thesis
    by (simp add: Close_def Close_handover_def Close_teardown_def haltReceive_def
        haltReceive_handover_def cancelQueue_def then_run_def finished_def pass_def
        pass_switch_def received_on_def NewClient_fields cap)
qed

lemma Close_behind_halted_read:
  "pass (NewClient '''' 0 0
         \<lparr>connSem := Some \<lparr>Conn = None, offline = Some ErrClosed, idle = None\<rparr>,
          goroutines := [Go_Close_handover \<lparr>Conn = Some 7, offline = None, idle = None\<rparr>
                           (ReadHandover 0)],
          readQueue := [ReadHandover 0]\<rparr>)
        (NewReaderSize 7 conservativeMSS) (Some errProtocol) Pass_readInterrupt
        [Err_readInterrupt]
     = Inr (Path_onReceiveError,
         NewClient '''' 0 0
         \<lparr>connSem := Some \<lparr>Conn = None, offline = Some ErrClosed, idle = None\<rparr>,
          goroutines := [Go_Close_handover \<lparr>Conn = Some 7, offline = None, idle = None\<rparr>
                           (ReadHandover 0)],
          readQueue := [ReadHandover 0]\<rparr>)
   \<and> Close_handover (NewClient '''' 0 0
         \<lparr>connSem := Some \<lparr>Conn = None, offline = Some ErrClosed, idle = None\<rparr>,
          goroutines := [Go_Close_handover \<lparr>Conn = Some 7, offline = None, idle = None\<rparr>
                           (ReadHandover 0)],
          readQueue := [ReadHandover 0]\<rparr>)
        \<lparr>Conn = Some 7, offline = None, idle = None\<rparr> (ReadHandover 0)
        Handover_readInterrupt None
     = Inl (Blocked (NewClient '''' 0 0
         \<lparr>connSem := Some \<lparr>Conn = None, offline = Some ErrClosed, idle = None\<rparr>,
          goroutines := [], readQueue := []\<rparr>))"
  by (simp add: Close_handover_def Close_teardown_def haltReceive_handover_def cancelQueue_def
      then_run_def finished_def pass_def pass_switch_def NewClient_fields)

subsection \<open>The token in the semaphore\<close>

text \<open>
  What an operation does to the semaphore is read from the state it leaves, whether it
  returns or waits. Draining the queue and the two steps of \<open>haltReceive\<close> do not touch
  it.
\<close>

lemma left_in_then_run:
  "left_in (then_run m f) state c' \<longleftrightarrow>
     (case m of Inl e \<Rightarrow> left_in (Inl e) state c' | Inr x \<Rightarrow> left_in (f x) state c')"
  by (simp add: then_run_def left_in_def split: sum.splits)

lemma cancelQueue_loop_connSem:
  "left_in (cancelQueue_loop n c) (\<lambda>c. c) c' \<Longrightarrow> connSem c' = connSem c"
proof (induction n arbitrary: c)
  case 0
  then show ?case by (simp add: left_in_def)
next
  case (Suc n)
  show ?case
  proof (cases "readQueue c")
    case Nil
    with Suc.prems show ?thesis by (simp add: left_in_def)
  next
    case (Cons ch rest)
    show ?thesis
    proof (cases ch)
      case (ReqReceive k)
      with Cons Suc.prems Suc.IH [of "c\<lparr>readQueue := rest, sent := sent c @ [(ReqReceive k, None)]\<rparr>"]
      show ?thesis by simp
    next
      case (ReadHandover h)
      with Cons Suc.prems show ?thesis by (simp add: left_in_def)
    qed
  qed
qed

lemma cancelQueue_connSem:
  "left_in (cancelQueue c) (\<lambda>c. c) c' \<Longrightarrow> connSem c' = connSem c"
  unfolding cancelQueue_def by (rule cancelQueue_loop_connSem)

lemma cancelQueue_cases:
  obtains (returns) c' where "cancelQueue c = Inr c'" "connSem c' = connSem c"
  | (waits) b where "cancelQueue c = Inl (Blocked b)" "connSem b = connSem c"
proof (cases "cancelQueue c")
  case (Inr c')
  with cancelQueue_connSem [of c c'] returns show ?thesis by (simp add: left_in_def)
next
  case (Inl e)
  show ?thesis
  proof (cases e)
    case (Blocked b)
    with Inl cancelQueue_connSem [of c b] waits show ?thesis by (simp add: left_in_def)
  next
    case NilDereference
    have "cancelQueue_loop n d \<noteq> Inl NilDereference" for n d
      by (induction n arbitrary: d) (auto split: list.splits chan.splits)
    with Inl NilDereference show ?thesis by (simp add: cancelQueue_def)
  qed
qed

lemma Close_teardown_connSem:
  "left_in (Close_teardown c conn cerr) snd c' \<Longrightarrow> connSem c' = connSem c"
  by (cases c rule: cancelQueue_cases)
    (auto simp: Close_teardown_def then_run_def left_in_def split: option.splits)

lemma submit_failed_teardown_connSem:
  "left_in (submit_failed_teardown c conn g) (\<lambda>c. c) c' \<Longrightarrow> connSem c' = connSem c"
  by (cases c rule: cancelQueue_cases)
    (auto simp: submit_failed_teardown_def then_run_def left_in_def finished_def
      split: option.splits)

lemma haltReceive_outcomes:
  "haltReceive c writeLock readHandover hs = Inr (Halted c)
   \<or> haltReceive c writeLock readHandover hs
       = Inr (Handover (c\<lparr>readQueue := readQueue c @ [readHandover]\<rparr>))
   \<or> haltReceive c writeLock readHandover hs = Inl (Blocked c)"
  by (simp add: haltReceive_def split: halt_select.splits)

lemma haltReceive_cases:
  obtains (halted) "haltReceive c writeLock readHandover hs = Inr (Halted c)"
  | (handover) "haltReceive c writeLock readHandover hs
                  = Inr (Handover (c\<lparr>readQueue := readQueue c @ [readHandover]\<rparr>))"
  | (waits) "haltReceive c writeLock readHandover hs = Inl (Blocked c)"
  using haltReceive_outcomes [of c writeLock readHandover hs] by blast

lemma haltReceive_handover_outcomes:
  "haltReceive_handover c readHandover hs = Inr c
   \<or> haltReceive_handover c readHandover hs = Inl (Blocked c)"
  by (simp add: haltReceive_handover_def split: handover_select.splits option.splits)

lemma haltReceive_handover_cases:
  obtains (returns) "haltReceive_handover c readHandover hs = Inr c"
  | (waits) "haltReceive_handover c readHandover hs = Inl (Blocked c)"
  using haltReceive_handover_outcomes [of c readHandover hs] by blast

lemma Close_connSem:
  assumes "left_in (Close c readHandover hs cerr) snd c'"
  shows "connSem c' = connSem c
         \<or> connSem c' = Some \<lparr>Conn = None, offline = Some ErrClosed, idle = None\<rparr>"
proof (cases "connSem c")
  case None
  with assms show ?thesis by (simp add: Close_def left_in_def)
next
  case (Some conn)
  let ?c1 = "c\<lparr>connSem := Some \<lparr>Conn = None, offline = Some ErrClosed, idle = None\<rparr>\<rparr>"
  show ?thesis
  proof (cases "offline conn = Some ErrClosed")
    case True
    with Some assms show ?thesis by (simp add: Close_def left_in_def)
  next
    case False
    show ?thesis
      using haltReceive_cases [of ?c1 conn readHandover hs]
    proof cases
      case halted
      with Some False assms have "left_in (Close_teardown ?c1 conn cerr) snd c'"
        by (simp add: Close_def then_run_def)
      from Close_teardown_connSem [OF this] show ?thesis by simp
    next
      case handover
      with Some False assms show ?thesis
        by (simp add: Close_def then_run_def left_in_def)
    next
      case waits
      with Some False assms show ?thesis
        by (simp add: Close_def then_run_def left_in_def)
    qed
  qed
qed

lemma Close_handover_connSem:
  assumes "left_in (Close_handover c conn readHandover hs cerr) snd c'"
  shows "connSem c' = connSem c"
  using haltReceive_handover_cases [of c readHandover hs]
proof cases
  case returns
  with assms have
    "left_in (Close_teardown (finished (Go_Close_handover conn readHandover) [] c) conn cerr)
       snd c'"
    by (simp add: Close_handover_def then_run_def)
  from Close_teardown_connSem [OF this] show ?thesis by (simp add: finished_def)
next
  case waits
  with assms show ?thesis by (simp add: Close_handover_def then_run_def left_in_def)
qed

lemma submit_failed_connSem:
  assumes "left_in (submit_failed c conn readHandover hs) (\<lambda>c. c) c'"
  shows "connSem c' = connSem c"
  using haltReceive_cases [of c conn readHandover hs]
proof cases
  case halted
  with assms have "left_in (submit_failed_teardown c conn (Go_submit_failed conn)) (\<lambda>c. c) c'"
    by (simp add: submit_failed_def then_run_def)
  from submit_failed_teardown_connSem [OF this] show ?thesis .
next
  case handover
  with assms show ?thesis
    by (simp add: submit_failed_def then_run_def left_in_def finished_def)
next
  case waits
  with assms show ?thesis by (simp add: submit_failed_def then_run_def left_in_def)
qed

lemma submit_failed_handover_connSem:
  assumes "left_in (submit_failed_handover c conn readHandover hs) (\<lambda>c. c) c'"
  shows "connSem c' = connSem c"
  using haltReceive_handover_cases [of c readHandover hs]
proof cases
  case returns
  with assms have
    "left_in (submit_failed_teardown c conn (Go_submit_failed_handover conn readHandover))
       (\<lambda>c. c) c'"
    by (simp add: submit_failed_handover_def then_run_def)
  from submit_failed_teardown_connSem [OF this] show ?thesis .
next
  case waits
  with assms show ?thesis by (simp add: submit_failed_handover_def then_run_def left_in_def)
qed

lemma receive_failed_connSem:
  assumes "left_in (receive_failed c conn) (\<lambda>c. c) c'"
  shows "connSem c' = connSem c"
proof (cases "Conn conn")
  case None
  with assms show ?thesis by (simp add: receive_failed_def left_in_def)
next
  case (Some h)
  show ?thesis
    using assms Some
    by (cases "c\<lparr>closed := closed c @ [h]\<rparr>" rule: cancelQueue_cases)
      (auto simp: receive_failed_def then_run_def left_in_def finished_def)
qed

lemma onReceiveError_connSem:
  "left_in (onReceiveError c rs) (\<lambda>c. c) c' \<Longrightarrow> connSem c' = connSem c \<or> connSem c' = None"
proof (induction c rs rule: onReceiveError.induct)
  case (1 c)
  then show ?case by (simp add: left_in_def)
next
  case (2 c rs)
  then show ?case by (simp add: left_in_def)
next
  case (3 c rs)
  show ?case
  proof (cases "readQueue c")
    case Nil
    with 3 show ?thesis by (simp add: left_in_def)
  next
    case (Cons ch rest)
    with 3 show ?thesis by simp
  qed
next
  case (4 c halted rs)
  then show ?case by (auto simp: left_in_def split: option.splits if_splits)
qed

text \<open>
  The tokens are built in three places, each with a socket or with an offline reason,
  not both; afterwards only \<open>idle\<close> is assigned.
\<close>

lemma token_connect:
  assumes "left_in (connect_attempt c firstAttempt d) (\<lambda>c. c) c'"
    and "\<forall>t. connSem c = Some t \<longrightarrow> offline t \<noteq> None \<longrightarrow> Conn t = None"
  shows "\<forall>t. connSem c' = Some t \<longrightarrow> offline t \<noteq> None \<longrightarrow> Conn t = None"
  using assms
  by (auto simp: connect_attempt_def finished_def left_in_def
      split: dialed.splits option.splits if_splits)

lemma token_submit:
  assumes "left_in (submit_write c req werr) snd c'"
    and "\<forall>t. connSem c = Some t \<longrightarrow> offline t \<noteq> None \<longrightarrow> Conn t = None"
  shows "\<forall>t. connSem c' = Some t \<longrightarrow> offline t \<noteq> None \<longrightarrow> Conn t = None"
  using assms
  by (auto simp: submit_write_def left_in_def split: option.splits if_splits)

lemma token_pass:
  assumes "left_in (pass c r err ps rs) snd c'"
    and "\<forall>t. connSem c = Some t \<longrightarrow> offline t \<noteq> None \<longrightarrow> Conn t = None"
  shows "\<forall>t. connSem c' = Some t \<longrightarrow> offline t \<noteq> None \<longrightarrow> Conn t = None"
proof (cases "pass_switch err")
  case Path_onReceiveError
  with assms(1) have "left_in (onReceiveError c rs) (\<lambda>c. c) c'"
    by (auto simp: pass_def then_run_def left_in_def split: sum.splits)
  from onReceiveError_connSem [OF this] assms(2) show ?thesis by auto
next
  case Path_handoff
  with assms(1) have "left_in (pass_handoff c r ps) (\<lambda>c. c) c'"
    by (auto simp: pass_def then_run_def left_in_def split: sum.splits)
  with assms(2) show ?thesis
    by (auto simp: pass_handoff_def left_in_def
        split: list.splits pass_select.splits option.splits)
qed

lemma token_Close:
  assumes "left_in (Close c readHandover hs cerr) snd c'"
    and "\<forall>t. connSem c = Some t \<longrightarrow> offline t \<noteq> None \<longrightarrow> Conn t = None"
  shows "\<forall>t. connSem c' = Some t \<longrightarrow> offline t \<noteq> None \<longrightarrow> Conn t = None"
  using Close_connSem [OF assms(1)] assms(2) by auto

lemma connect_DialError_first:
  "connect_attempt (NewClient addr a b) True (DialError e)
     = Inr (NewClient addr a b
         \<lparr>connSem := Some \<lparr>Conn = None, offline = Some (Errorf_offline e), idle = None\<rparr>,
          goroutines := [Go_connect False]\<rparr>)"
  by (simp add: connect_attempt_def finished_def NewClient_fields)

text \<open>
  Claim C2. In every reachable state, a token in the connection semaphore that has an
  offline reason has no socket; this holds for the closed token as well.
\<close>

theorem offline_token_has_no_socket:
  assumes "reachable c" and "connSem c = Some t" and "offline t \<noteq> None"
  shows "Conn t = None"
proof -
  from assms(1) have "\<forall>t. connSem c = Some t \<longrightarrow> offline t \<noteq> None \<longrightarrow> Conn t = None"
  proof (induction rule: reachable.induct)
    case (reach_NewClient addr commandTimeout' connectTimeout')
    show ?case by (simp add: NewClient_fields)
  next
    case (reach_connect c firstAttempt d c')
    then show ?case using token_connect by blast
  next
    case (reach_submit c req werr c')
    then show ?case using token_submit by blast
  next
    case (reach_submit_failed c conn readHandover hs c')
    with submit_failed_connSem [of c conn readHandover hs c'] show ?case by simp
  next
    case (reach_submit_failed_handover c conn readHandover hos c')
    with submit_failed_handover_connSem [of c conn readHandover hos c'] show ?case by simp
  next
    case (reach_pass c r err ps rs c')
    then show ?case using token_pass by blast
  next
    case (reach_receive_failed c conn c')
    with receive_failed_connSem [of c conn c'] show ?case by simp
  next
    case (reach_Close c readHandover hs cerr c')
    then show ?case using token_Close by blast
  next
    case (reach_Close_handover c conn readHandover hos cerr c')
    with Close_handover_connSem [of c conn readHandover hos cerr c'] show ?case by simp
  qed
  with assms(2,3) show ?thesis by blast
qed

theorem offline_token_has_no_socket_witness:
  "reachable (NewClient '''' 0 0
       \<lparr>connSem := Some \<lparr>Conn = None, offline = Some (Errorf_offline (NetError ''refused'')),
                          idle = None\<rparr>,
        goroutines := [Go_connect False]\<rparr>)
   \<and> connSem (NewClient '''' 0 0
       \<lparr>connSem := Some \<lparr>Conn = None, offline = Some (Errorf_offline (NetError ''refused'')),
                          idle = None\<rparr>,
        goroutines := [Go_connect False]\<rparr>)
     = Some \<lparr>Conn = None, offline = Some (Errorf_offline (NetError ''refused'')), idle = None\<rparr>
   \<and> offline \<lparr>Conn = None, offline = Some (Errorf_offline (NetError ''refused'')), idle = None\<rparr>
       \<noteq> None
   \<and> Conn \<lparr>Conn = None, offline = Some (Errorf_offline (NetError ''refused'')), idle = None\<rparr>
       = None"
proof -
  let ?t = "\<lparr>Conn = None, offline = Some (Errorf_offline (NetError ''refused'')), idle = None\<rparr>"
  let ?c = "NewClient '''' 0 0\<lparr>connSem := Some ?t, goroutines := [Go_connect False]\<rparr>"
  have step: "left_in (connect_attempt (NewClient '''' 0 0) True (DialError (NetError ''refused'')))
      (\<lambda>c. c) ?c"
    by (simp add: connect_DialError_first left_in_def)
  have r: "reachable ?c"
    by (rule reach_connect [OF reach_NewClient _ step]) (simp add: NewClient_fields)
  have s: "connSem ?c = Some ?t" by simp
  have o: "offline ?t \<noteq> None" by simp
  from offline_token_has_no_socket [OF r s o] r s o show ?thesis by simp
qed


end
